theory Spec2Isabelle
  imports Complex_Main "HOL-Library.Word"
begin

unbundle bit_operations_syntax

section \<open>JavaScript values shared by the components\<close>

text \<open>
  Strings are lists of 8-bit characters. Timestamps, which the source keeps as ISO strings
  made by \<open>new Date().toISOString()\<close> or as \<open>Date.now()\<close> numbers, are natural numbers of
  milliseconds. A thrown \<open>Error\<close> is a value of type \<open>error\<close>; an operation that can
  throw returns its result together with the state it leaves behind.
\<close>

datatype error =
  Error string
| QueueOverflow nat nat
| NotAFunction

text \<open>The characters that \<open>String.prototype.trim\<close> and the regular expression class
  \<open>\s\<close> treat as white space, as far as they exist among 8-bit characters.\<close>

definition is_js_space :: "char \<Rightarrow> bool" where
  "is_js_space c = (c \<in> set [CHR 0x09, CHR 0x0A, CHR 0x0B, CHR 0x0C, CHR 0x0D, CHR 0x20, CHR 0xA0])"

definition js_trimStart :: "string \<Rightarrow> string" where
  "js_trimStart s = dropWhile is_js_space s"

definition js_trimEnd :: "string \<Rightarrow> string" where
  "js_trimEnd s = rev (dropWhile is_js_space (rev s))"

definition js_trim :: "string \<Rightarrow> string" where
  "js_trim s = js_trimEnd (js_trimStart s)"

text \<open>\<open>String(value ?? "")\<close>: \<open>None\<close> stands for \<open>null\<close> and \<open>undefined\<close>.\<close>

definition str_or_empty :: "string option \<Rightarrow> string" where
  "str_or_empty v = (case v of None \<Rightarrow> [] | Some s \<Rightarrow> s)"

section \<open>Objective queue\<close>

datatype objective_status = Pending | InProgress | Blocked | Completed | Failed | Cancelled

record objective_note =
  note_at :: nat
  note_text :: string

record objective =
  obj_id :: string
  obj_title :: string
  obj_description :: string
  obj_priority :: int
  obj_status :: objective_status
  obj_source :: string
  obj_createdAt :: nat
  obj_updatedAt :: nat
  obj_runCount :: nat
  obj_lastRunAt :: "nat option"
  obj_notes :: "objective_note list"

text \<open>The queue object: the in-memory list and the content of the JSON file at \<open>path\<close>
  (\<open>None\<close> while the file does not exist).\<close>

record objective_queue =
  objectives :: "objective list"
  objectives_file :: "objective list option"

definition persist :: "objective_queue \<Rightarrow> objective_queue" where
  "persist q = q\<lparr>objectives_file := Some (objectives q)\<rparr>"

text \<open>
  \<open>ObjectiveQueue.add\<close>. The arguments \<open>uuid\<close> and \<open>now\<close> are the values of
  \<open>crypto.randomUUID()\<close> and \<open>now()\<close>; a \<open>priority\<close> that is not a finite number is
  \<open>None\<close>.
\<close>

definition add ::
  "objective_queue \<Rightarrow> string option \<Rightarrow> string option \<Rightarrow> int option \<Rightarrow> string \<Rightarrow> string \<Rightarrow> nat
    \<Rightarrow> (error + objective) \<times> objective_queue" where
  "add q title description priority source uuid now =
     (let objective = \<lparr>
            obj_id = uuid,
            obj_title = js_trim (str_or_empty title),
            obj_description = js_trim (str_or_empty description),
            obj_priority = (case priority of Some p \<Rightarrow> p | None \<Rightarrow> 3),
            obj_status = Pending,
            obj_source = source,
            obj_createdAt = now,
            obj_updatedAt = now,
            obj_runCount = 0,
            obj_lastRunAt = None,
            obj_notes = [] \<rparr>
      in if obj_title objective = [] then (Inl (Error ''Objective title is required''), q)
         else (Inr objective, persist (q\<lparr>objectives := objectives q @ [objective]\<rparr>)))"

section \<open>Lane queue\<close>

text \<open>
  A job stands for one call of \<open>enqueue\<close> and the function \<open>fn\<close> passed to it; what
  \<open>fn\<close> does when it runs is not part of the queue, so its outcome is an input of the
  step that ends it.
\<close>

type_synonym job = nat

datatype outcome = Fulfilled string | Rejected string

datatype lane_event =
  LaneEnqueue string nat nat
| LaneStart string nat nat nat
| LaneEnd string nat nat nat

text \<open>
  A lane object. \<open>promise\<close> is the chain hanging on \<open>lane.promise\<close>: the jobs whose
  \<open>then\<close> callback has been attached and has not finished, oldest first; the promise is
  settled when the list is empty. \<open>head_running\<close> tells whether the callback of the first
  job has begun. \<open>lane_key\<close> is the \<open>laneKey\<close> captured by the callbacks of this object.
\<close>

record lane =
  lane_key :: string
  depth :: nat
  active :: nat
  lane_updatedAt :: nat
  promise :: "job list"
  head_running :: bool

text \<open>
  The queue. \<open>lanes\<close> is the \<open>Map\<close> from lane key to lane object; the objects live in
  \<open>lane_objects\<close> and are named by their index, since a callback keeps its lane object
  also after the key has been deleted from the map. \<open>emitted\<close> collects the calls of
  \<open>onEvent\<close>. The last three fields are history: the accepted calls in submission order,
  the jobs in the order their callbacks began, and the outcome each call's awaited
  \<open>run\<close> handed to its caller.
\<close>

record lane_queue =
  maxDepth :: nat
  onEvent :: bool
  lanes :: "(string \<times> nat) list"
  lane_objects :: "lane list"
  totalDepth :: nat
  emitted :: "lane_event list"
  submitted :: "(string \<times> job) list"
  begun :: "(string \<times> job) list"
  settled :: "(string \<times> job \<times> outcome) list"

text \<open>The constructor; a \<open>maxDepth\<close> that is not a finite number is \<open>None\<close>.\<close>

definition new_LaneQueue :: "nat option \<Rightarrow> bool \<Rightarrow> lane_queue" where
  "new_LaneQueue maxDepth_arg listener =
     \<lparr> maxDepth = max 1 (case maxDepth_arg of Some m \<Rightarrow> m | None \<Rightarrow> 100),
       onEvent = listener,
       lanes = [],
       lane_objects = [],
       totalDepth = 0,
       emitted = [],
       submitted = [],
       begun = [],
       settled = [] \<rparr>"

definition lane_emit :: "lane_queue \<Rightarrow> lane_event \<Rightarrow> lane_queue" where
  "lane_emit q e = (if onEvent q then q\<lparr>emitted := emitted q @ [e]\<rparr> else q)"

definition getDepth :: "lane_queue \<Rightarrow> nat" where
  "getDepth q = totalDepth q"

definition getLaneDepth :: "lane_queue \<Rightarrow> string \<Rightarrow> nat" where
  "getLaneDepth q laneKey =
     (case map_of (lanes q) (if laneKey = [] then ''default'' else laneKey) of
        None \<Rightarrow> 0
      | Some r \<Rightarrow> depth (lane_objects q ! r) + active (lane_objects q ! r))"

text \<open>
  \<open>enqueue\<close> up to the point where the callback is attached to the lane's promise. A
  \<open>fn\<close> that is not a function is \<open>None\<close>. The two \<open>throw\<close>s leave the queue as it is.
\<close>

definition enqueue :: "lane_queue \<Rightarrow> string \<Rightarrow> job option \<Rightarrow> nat \<Rightarrow> (error + unit) \<times> lane_queue" where
  "enqueue q rawLaneKey fn now =
     (case fn of
        None \<Rightarrow> (Inl NotAFunction, q)
      | Some j \<Rightarrow>
          if totalDepth q \<ge> maxDepth q then (Inl (QueueOverflow (totalDepth q) (maxDepth q)), q)
          else
            let laneKey = (if rawLaneKey = [] then ''default'' else rawLaneKey);
                (r, q1) = (case map_of (lanes q) laneKey of
                             Some r \<Rightarrow> (r, q)
                           | None \<Rightarrow>
                               (length (lane_objects q),
                                q\<lparr>lanes := lanes q @ [(laneKey, length (lane_objects q))],
                                  lane_objects := lane_objects q @
                                    [\<lparr>lane_key = laneKey, depth = 0, active = 0,
                                      lane_updatedAt = now, promise = [], head_running = False\<rparr>]\<rparr>));
                lane = lane_objects q1 ! r;
                lane1 = lane\<lparr>depth := depth lane + 1, lane_updatedAt := now,
                             promise := promise lane @ [j]\<rparr>;
                q2 = q1\<lparr>lane_objects := (lane_objects q1)[r := lane1],
                        totalDepth := totalDepth q1 + 1,
                        submitted := submitted q1 @ [(laneKey, j)]\<rparr>
            in (Inr (), lane_emit q2 (LaneEnqueue laneKey (depth lane1) (totalDepth q2))))"

text \<open>
  The callback attached by \<open>enqueue\<close>, for the lane object \<open>r\<close>: the part before
  \<open>await fn()\<close>, which can run once every earlier job of the chain has finished, and the
  \<open>finally\<close> block, which runs when \<open>fn\<close> has returned or thrown. \<open>None\<close> means that the
  step cannot happen in this state.
\<close>

definition run_start :: "lane_queue \<Rightarrow> nat \<Rightarrow> nat \<Rightarrow> lane_queue option" where
  "run_start q r now =
     (if r < length (lane_objects q) then
        let lane = lane_objects q ! r in
        (case promise lane of
           [] \<Rightarrow> None
         | j # rest \<Rightarrow>
             if head_running lane then None
             else
               let lane1 = lane\<lparr>depth := depth lane - 1, active := active lane + 1,
                                lane_updatedAt := now, head_running := True\<rparr>;
                   q1 = q\<lparr>lane_objects := (lane_objects q)[r := lane1],
                          totalDepth := totalDepth q - 1,
                          begun := begun q @ [(lane_key lane, j)]\<rparr>
               in Some (lane_emit q1
                         (LaneStart (lane_key lane) (depth lane1) (active lane1) (totalDepth q1))))
      else None)"

definition run_finally :: "lane_queue \<Rightarrow> nat \<Rightarrow> outcome \<Rightarrow> nat \<Rightarrow> lane_queue option" where
  "run_finally q r result now =
     (if r < length (lane_objects q) then
        let lane = lane_objects q ! r in
        (case promise lane of
           [] \<Rightarrow> None
         | j # rest \<Rightarrow>
             if \<not> head_running lane then None
             else
               let lane1 = lane\<lparr>active := active lane - 1, lane_updatedAt := now\<rparr>;
                   q1 = lane_emit (q\<lparr>lane_objects := (lane_objects q)[r := lane1]\<rparr>)
                          (LaneEnd (lane_key lane) (depth lane1) (active lane1) (totalDepth q));
                   q2 = (if depth lane1 = 0 \<and> active lane1 = 0
                         then q1\<lparr>lanes := filter (\<lambda>(k, x). k \<noteq> lane_key lane) (lanes q1)\<rparr>
                         else q1);
                   lane2 = lane1\<lparr>promise := rest, head_running := False\<rparr>
               in Some (q2\<lparr>lane_objects := (lane_objects q2)[r := lane2],
                            settled := settled q2 @ [(lane_key lane, j, result)]\<rparr>))
      else None)"

text \<open>The sum of \<open>getLaneDepth\<close> over all lanes of the map: the entries that are pending
  or active.\<close>

definition pendingPlusActive :: "lane_queue \<Rightarrow> nat" where
  "pendingPlusActive q = sum_list (map (\<lambda>(k, r). getLaneDepth q k) (lanes q))"

definition is_overflow :: "(error + unit) \<Rightarrow> bool" where
  "is_overflow res = (case res of Inl (QueueOverflow d m) \<Rightarrow> True | _ \<Rightarrow> False)"

section \<open>Lane queue: runs\<close>

text \<open>
  What can happen to a queue: a call of \<open>enqueue\<close>, the callback of a lane object
  reaching \<open>await fn()\<close>, and the \<open>fn\<close> of the running callback of a lane object
  returning or throwing. A call of \<open>enqueue\<close> that throws leaves the queue as it is.
  The listener \<open>onEvent\<close> is taken not to throw.
\<close>

datatype lane_step =
  Enqueue string "job option" nat
| RunStart nat nat
| RunFinally nat outcome nat

fun lane_next :: "lane_queue \<Rightarrow> lane_step \<Rightarrow> lane_queue option" where
  "lane_next q (Enqueue rawLaneKey fn now) = Some (snd (enqueue q rawLaneKey fn now))"
| "lane_next q (RunStart r now) = run_start q r now"
| "lane_next q (RunFinally r result now) = run_finally q r result now"

fun lane_run :: "lane_queue \<Rightarrow> lane_step list \<Rightarrow> lane_queue option" where
  "lane_run q [] = Some q"
| "lane_run q (st # sts) = (case lane_next q st of None \<Rightarrow> None | Some q' \<Rightarrow> lane_run q' sts)"

text \<open>The entries of a history that belong to one lane key, in their order.\<close>

definition jobs_of :: "string \<Rightarrow> (string \<times> 'a) list \<Rightarrow> 'a list" where
  "jobs_of k xs = map snd (filter (\<lambda>e. fst e = k) xs)"

text \<open>The jobs of the lane registered under a key that have not begun, and the one that
  has begun and not finished.\<close>

definition waiting :: "lane_queue \<Rightarrow> string \<Rightarrow> job list" where
  "waiting q k =
     (case map_of (lanes q) k of
        None \<Rightarrow> []
      | Some r \<Rightarrow> if head_running (lane_objects q ! r) then tl (promise (lane_objects q ! r))
                  else promise (lane_objects q ! r))"

definition in_flight :: "lane_queue \<Rightarrow> string \<Rightarrow> job list" where
  "in_flight q k =
     (case map_of (lanes q) k of
        None \<Rightarrow> []
      | Some r \<Rightarrow> if head_running (lane_objects q ! r) then [hd (promise (lane_objects q ! r))]
                  else [])"

text \<open>
  What holds of every queue between two steps: the keys of the map are distinct and each
  names a lane object of that key with a job on its chain; the counters of a lane object
  count what its chain holds; a lane object with a job on its chain is the one registered
  under its key; and the histories agree with the chains.
\<close>

definition lane_wf :: "lane_queue \<Rightarrow> bool" where
  "lane_wf q \<longleftrightarrow>
     distinct (map fst (lanes q)) \<and>
     (\<forall>e \<in> set (lanes q). snd e < length (lane_objects q) \<and>
          lane_key (lane_objects q ! snd e) = fst e \<and> promise (lane_objects q ! snd e) \<noteq> []) \<and>
     (\<forall>r < length (lane_objects q).
          active (lane_objects q ! r) = (if head_running (lane_objects q ! r) then 1 else 0) \<and>
          depth (lane_objects q ! r) + active (lane_objects q ! r)
            = length (promise (lane_objects q ! r)) \<and>
          (promise (lane_objects q ! r) \<noteq> [] \<longrightarrow>
             (lane_key (lane_objects q ! r), r) \<in> set (lanes q)))"

definition lane_hist :: "lane_queue \<Rightarrow> bool" where
  "lane_hist q \<longleftrightarrow>
     (\<forall>k. jobs_of k (submitted q) = jobs_of k (begun q) @ waiting q k \<and>
          jobs_of k (begun q) = map fst (jobs_of k (settled q)) @ in_flight q k)"

text \<open>For the examples: two calls for the lane \<open>a\<close>, then the first of them beginning.\<close>

definition two_waiting :: "lane_step list" where
  "two_waiting = [Enqueue ''a'' (Some 1) 1, Enqueue ''a'' (Some 2) 2]"

definition first_begun :: "lane_step list" where
  "first_begun = two_waiting @ [RunStart 0 3]"

definition after_steps :: "lane_step list \<Rightarrow> lane_queue" where
  "after_steps steps = the (lane_run (new_LaneQueue (Some 5) True) steps)"

text \<open>The first of them throwing and the second beginning.\<close>

definition second_begun :: "lane_step list" where
  "second_begun = first_begun @ [RunFinally 0 (Rejected ''boom'') 4, RunStart 0 5]"

section \<open>Autonomous loop\<close>

text \<open>Decimal rendering of a number inside a template string.\<close>

function decimal :: "nat \<Rightarrow> string" where
  "decimal n = (if n < 10 then [char_of (48 + n)] else decimal (n div 10) @ [char_of (48 + n mod 10)])"
  by pat_completeness auto
termination
  by (relation "measure id") auto

definition startsWith :: "string \<Rightarrow> string \<Rightarrow> bool" where
  "startsWith s p = (take (length p) s = p)"

definition endsWith :: "string \<Rightarrow> string \<Rightarrow> bool" where
  "endsWith s p = (length p \<le> length s \<and> drop (length s - length p) s = p)"

definition join :: "string \<Rightarrow> string list \<Rightarrow> string" where
  "join sep xs = (case xs of [] \<Rightarrow> [] | y # ys \<Rightarrow> foldl (\<lambda>acc x. acc @ sep @ x) y ys)"

text \<open>
  \<open>autoConfig\<close>. A numeric option that is absent or not a finite number is \<open>None\<close>
  (the case in which \<open>toNumber\<close> returns its fallback).
\<close>

record auto_config =
  enabled :: bool
  goal :: string
  intervalMs :: "int option"
  skipWhenQueueAbove :: "int option"
  maxConsecutiveFailures :: "int option"
  stalePendingHours :: "int option"
  staleInProgressIdleHours :: "int option"

record autonomous_loop =
  autoConfig :: auto_config
  timer :: bool
  running :: bool
  lastTickAt :: "nat option"
  lastError :: "string option"
  consecutiveFailures :: nat
  totalTicks :: nat
  skippedTicks :: nat
  disabledReason :: "string option"

text \<open>
  What a tick does to the outside: the events it emits and the calls it makes to the
  objective queue and to the runtime (the orchestrator).
\<close>

datatype auto_action =
  Emit_tick_skip string
| Emit_tick_start nat
| Emit_stale_pruned nat
| Emit_tick_success "string option"
| Emit_tick_error string nat int
| Emit_loop_disabled string
| Emit_tick_end nat
| Emit_loop_start int
| Emit_loop_stop
| Call_objectiveQueue_reload
| Call_objectiveQueue_expireStale int int
| Call_objectiveQueue_pickForAutonomous
| Call_objectiveQueue_markPicked string
| Call_runtime_handleIncoming string
| Call_runtime_setChannelHealth bool

text \<open>What the runtime reports when a tick looks at it.\<close>

record tick_env =
  isBusy :: bool
  queueDepth :: nat
  taskHealth :: "(nat \<times> nat) option"
  maxConcurrentTasks :: "int option"
  tick_now :: nat

text \<open>
  What the awaited calls of a tick give back: the number of objectives \<open>expireStale\<close>
  changed, the objective chosen by \<open>pickForAutonomous\<close>, the result of \<open>markPicked\<close>
  for it (\<open>Inl\<close> when it throws), and what \<open>handleIncoming\<close> returned or threw.
\<close>

record tick_results =
  staleChangedCount :: nat
  picked :: "objective option"
  marked :: "error + objective option"
  reply :: "error + string"

definition new_AutonomousLoop :: "auto_config \<Rightarrow> autonomous_loop" where
  "new_AutonomousLoop cfg =
     \<lparr> autoConfig = cfg, timer = False, running = False, lastTickAt = None, lastError = None,
       consecutiveFailures = 0, totalTicks = 0, skippedTicks = 0, disabledReason = None \<rparr>"

definition toNumber :: "int option \<Rightarrow> int \<Rightarrow> int" where
  "toNumber v fallback = (case v of Some n \<Rightarrow> n | None \<Rightarrow> fallback)"

definition getQueueSkipLimit :: "autonomous_loop \<Rightarrow> int" where
  "getQueueSkipLimit s = toNumber (skipWhenQueueAbove (autoConfig s)) 2"

definition getMaxConsecutiveFailures :: "autonomous_loop \<Rightarrow> int" where
  "getMaxConsecutiveFailures s = max 1 (toNumber (maxConsecutiveFailures (autoConfig s)) 5)"

definition getStalePendingHours :: "autonomous_loop \<Rightarrow> int" where
  "getStalePendingHours s = max 1 (toNumber (stalePendingHours (autoConfig s)) (24 * 14))"

definition getStaleInProgressIdleHours :: "autonomous_loop \<Rightarrow> int" where
  "getStaleInProgressIdleHours s = max 1 (toNumber (staleInProgressIdleHours (autoConfig s)) (24 * 3))"

definition shouldSkipForQueuePressure :: "autonomous_loop \<Rightarrow> tick_env \<Rightarrow> bool" where
  "shouldSkipForQueuePressure s env =
     (let limit = getQueueSkipLimit s
      in if limit < 0 then False else int (queueDepth env) > limit)"

text \<open>\<open>getTaskPressure\<close>: whether to skip, and the reason.\<close>

definition getTaskPressure :: "tick_env \<Rightarrow> bool \<times> string" where
  "getTaskPressure env =
     (case taskHealth env of
        None \<Rightarrow> (False, ''none'')
      | Some (health_queueDepth, health_failedRecent) \<Rightarrow>
          let maxConcurrent = max 1 (case maxConcurrentTasks env of
                                       None \<Rightarrow> 6 | Some n \<Rightarrow> if n = 0 then 6 else n);
              queueLimit = maxConcurrent * 3;
              failLimit = max 6 maxConcurrent
          in if int health_queueDepth > queueLimit then (True, ''queue_overflow'')
             else if int health_failedRecent > failLimit then (True, ''recent_failures'')
             else (False, ''ok''))"

definition buildPrompt :: "objective option \<Rightarrow> string \<Rightarrow> string" where
  "buildPrompt objective fallbackGoal =
     (case objective of
        Some ob \<Rightarrow>
          join [CHR 0x0A]
            [ ''[AUTONOMOUS OBJECTIVE CYCLE]'',
              ''Objective ID: '' @ obj_id ob,
              ''Title: '' @ obj_title ob,
              ''Description: '' @ (if obj_description ob = [] then ''(none)'' else obj_description ob),
              [],
              ''Execution rules:'',
              ''1. Do concrete work using tools (terminal/chrome/memory/objectives).'',
              ''2. Keep continuity: check running tasks before starting duplicates.'',
              ''3. If objective is complete, call nx_objective_update with completed.'',
              ''4. If blocked, call nx_objective_update with blocked and detailed notes.'',
              ''5. If long history grows, call nx_memory_compact.'',
              [],
              ''Start now and return concise progress update.'' ]
      | None \<Rightarrow>
          join [CHR 0x0A]
            [ ''[AUTONOMOUS MAINTENANCE CYCLE]'',
              ''Fallback goal: '' @ (if fallbackGoal = []
                 then ''Keep making useful progress and monitor running tasks.'' else fallbackGoal),
              [],
              ''Execution rules:'',
              ''1. Inspect current tasks and objective queue first.'',
              ''2. Take one concrete useful action.'',
              ''3. Add objective if new long-running work appears.'',
              ''4. Persist important findings in long-term memory.'',
              [],
              ''Execute immediately.'' ])"

text \<open>
  \<open>tick\<close> up to its first \<open>await\<close>. The Boolean tells whether the tick got past the
  guards and is now in flight.
\<close>

definition tick_begin :: "autonomous_loop \<Rightarrow> tick_env \<Rightarrow> bool \<times> autonomous_loop \<times> auto_action list" where
  "tick_begin s env =
     (if \<not> enabled (autoConfig s) then (False, s, [])
      else if disabledReason s \<noteq> None then
        (False, s\<lparr>skippedTicks := skippedTicks s + 1\<rparr>, [Emit_tick_skip ''disabled''])
      else if running s \<or> isBusy env then
        (False, s\<lparr>skippedTicks := skippedTicks s + 1\<rparr>, [Emit_tick_skip ''runtime_busy''])
      else if shouldSkipForQueuePressure s env then
        (False, s\<lparr>skippedTicks := skippedTicks s + 1\<rparr>, [Emit_tick_skip ''queue_pressure''])
      else if fst (getTaskPressure env) then
        (False, s\<lparr>skippedTicks := skippedTicks s + 1\<rparr>, [Emit_tick_skip ''task_pressure''])
      else
        (True,
         s\<lparr>running := True, lastTickAt := Some (tick_now env), totalTicks := totalTicks s + 1\<rparr>,
         [Emit_tick_start (totalTicks s + 1)]))"

text \<open>The \<open>catch\<close> block of \<open>tick\<close>, for an \<open>Error\<close> object with the given message
  (\<open>String\<close> of one without a message is \<open>"Error"\<close>).\<close>

definition tick_catch :: "autonomous_loop \<Rightarrow> string \<Rightarrow> autonomous_loop \<times> auto_action list" where
  "tick_catch s message =
     (let text = (if message = [] then ''Error'' else message);
          s1 = s\<lparr>lastError := Some text, consecutiveFailures := consecutiveFailures s + 1\<rparr>;
          maxFailures = getMaxConsecutiveFailures s1;
          a1 = [Emit_tick_error text (consecutiveFailures s1) maxFailures]
      in if int (consecutiveFailures s1) \<ge> maxFailures then
           (let reason = ''disabled after '' @ decimal (consecutiveFailures s1) @ '' consecutive failures''
            in (s1\<lparr>disabledReason := Some reason\<rparr>,
                a1 @ [Call_runtime_setChannelHealth False, Emit_loop_disabled reason]))
         else (s1, a1))"

definition error_message :: "error \<Rightarrow> string" where
  "error_message e = (case e of Error m \<Rightarrow> m | _ \<Rightarrow> ''error'')"

text \<open>
  The rest of a tick that is in flight: the \<open>try\<close> block in the order of its calls,
  then \<open>catch\<close> if one of them threw, then \<open>finally\<close>. A failure of \<open>reload\<close> or of
  \<open>expireStale\<close> is swallowed by the source and does not show here.
\<close>

definition tick_body :: "autonomous_loop \<Rightarrow> tick_results \<Rightarrow> autonomous_loop \<times> auto_action list" where
  "tick_body s res =
     (let a0 = [Call_objectiveQueue_reload,
                Call_objectiveQueue_expireStale (getStalePendingHours s) (getStaleInProgressIdleHours s)]
                @ (if staleChangedCount res > 0 then [Emit_stale_pruned (staleChangedCount res)] else [])
                @ [Call_objectiveQueue_pickForAutonomous];
          (thrown, objective, a1) =
            (case picked res of
               None \<Rightarrow> (None, None, [])
             | Some ob \<Rightarrow>
                 (case marked res of
                    Inl e \<Rightarrow> (Some (error_message e), None, [Call_objectiveQueue_markPicked (obj_id ob)])
                  | Inr m \<Rightarrow> (None, m, [Call_objectiveQueue_markPicked (obj_id ob)])));
          (s2, a2) =
            (case thrown of
               Some message \<Rightarrow> tick_catch s message
             | None \<Rightarrow>
                 (let prompt = buildPrompt objective (goal (autoConfig s));
                      call = [Call_runtime_handleIncoming prompt]
                  in case reply res of
                       Inl e \<Rightarrow> (let (t, b) = tick_catch s (error_message e) in (t, call @ b))
                     | Inr text \<Rightarrow>
                         if startsWith text ''Runtime error:''
                         then (let (t, b) = tick_catch s text in (t, call @ b))
                         else (s\<lparr>consecutiveFailures := 0, lastError := None\<rparr>,
                               call @ [Emit_tick_success (map_option obj_id objective)])))
      in (s2\<lparr>running := False\<rparr>, a0 @ a1 @ a2 @ [Emit_tick_end (totalTicks s2)]))"

text \<open>A whole tick during which nothing else touches the loop.\<close>

definition tick :: "autonomous_loop \<Rightarrow> tick_env \<Rightarrow> tick_results \<Rightarrow> autonomous_loop \<times> auto_action list" where
  "tick s env res =
     (case tick_begin s env of
        (False, s1, a1) \<Rightarrow> (s1, a1)
      | (True, s1, a1) \<Rightarrow> (let (s2, a2) = tick_body s1 res in (s2, a1 @ a2)))"

definition auto_stop :: "autonomous_loop \<Rightarrow> autonomous_loop \<times> auto_action list" where
  "auto_stop s = (s\<lparr>timer := False\<rparr>, [Call_runtime_setChannelHealth False, Emit_loop_stop])"

definition interval_or_default :: "int option \<Rightarrow> int" where
  "interval_or_default v = (case v of None \<Rightarrow> 90000 | Some n \<Rightarrow> if n = 0 then 90000 else n)"

text \<open>\<open>start\<close>: installs the timer and begins a first tick at once (\<open>void this.tick()\<close>).\<close>

definition auto_start :: "autonomous_loop \<Rightarrow> tick_env \<Rightarrow> autonomous_loop \<times> auto_action list" where
  "auto_start s env =
     (if \<not> enabled (autoConfig s) \<or> timer s then (s, [])
      else
        let interval = max 5000 (interval_or_default (intervalMs (autoConfig s)));
            (started, s1, a1) = tick_begin (s\<lparr>timer := True\<rparr>) env
        in (s1, [Call_runtime_setChannelHealth True, Emit_loop_start interval] @ a1))"

text \<open>The argument of \<open>applyConfig\<close>: every field may be missing.\<close>

record auto_patch =
  next_enabled :: "bool option"
  next_goal :: "string option"
  next_intervalMs :: "int option"
  next_skipWhenQueueAbove :: "int option"
  next_maxConsecutiveFailures :: "int option"
  next_stalePendingHours :: "int option"
  next_staleInProgressIdleHours :: "int option"

definition patch_number :: "int option \<Rightarrow> int \<Rightarrow> int option \<Rightarrow> int option" where
  "patch_number nxt lo cur = (case nxt of None \<Rightarrow> cur | Some n \<Rightarrow> Some (max lo n))"

definition applyConfig :: "autonomous_loop \<Rightarrow> auto_patch \<Rightarrow> tick_env \<Rightarrow> autonomous_loop \<times> auto_action list" where
  "applyConfig s nxt env =
     (let cfg = autoConfig s;
          prevEnabled = enabled cfg;
          prevInterval = interval_or_default (intervalMs cfg);
          cfg1 = cfg\<lparr>
            enabled := (case next_enabled nxt of None \<Rightarrow> enabled cfg | Some b \<Rightarrow> b),
            goal := (case next_goal nxt of None \<Rightarrow> goal cfg | Some g \<Rightarrow> js_trim g),
            intervalMs := patch_number (next_intervalMs nxt) 5000 (intervalMs cfg),
            skipWhenQueueAbove := patch_number (next_skipWhenQueueAbove nxt) 0 (skipWhenQueueAbove cfg),
            maxConsecutiveFailures :=
              patch_number (next_maxConsecutiveFailures nxt) 1 (maxConsecutiveFailures cfg),
            stalePendingHours := patch_number (next_stalePendingHours nxt) 1 (stalePendingHours cfg),
            staleInProgressIdleHours :=
              patch_number (next_staleInProgressIdleHours nxt) 1 (staleInProgressIdleHours cfg)\<rparr>;
          s1 = s\<lparr>autoConfig := cfg1\<rparr>
      in if \<not> enabled cfg1 then auto_stop s1
         else
           let s2 = s1\<lparr>disabledReason := None\<rparr>;
               s3 = (if \<not> prevEnabled \<and> enabled cfg1
                     then s2\<lparr>consecutiveFailures := 0, lastError := None\<rparr> else s2);
               nextInterval = interval_or_default (intervalMs cfg1)
           in if timer s3 \<and> prevInterval \<noteq> nextInterval then
                (let (s4, a4) = auto_stop s3; (s5, a5) = auto_start s4 env in (s5, a4 @ a5))
              else if \<not> timer s3 then auto_start s3 env
              else (s3, []))"

text \<open>A run of whole ticks, one after the other.\<close>

fun ticks :: "autonomous_loop \<Rightarrow> (tick_env \<times> tick_results) list \<Rightarrow> autonomous_loop \<times> auto_action list" where
  "ticks s [] = (s, [])"
| "ticks s ((env, res) # rest) =
     (let (s1, a1) = tick s env res; (s2, a2) = ticks s1 rest in (s2, a1 @ a2))"

text \<open>The actions that are a call to the objective queue or to the orchestrator.\<close>

fun is_work :: "auto_action \<Rightarrow> bool" where
  "is_work Call_objectiveQueue_reload = True"
| "is_work (Call_objectiveQueue_expireStale p i) = True"
| "is_work Call_objectiveQueue_pickForAutonomous = True"
| "is_work (Call_objectiveQueue_markPicked i) = True"
| "is_work (Call_runtime_handleIncoming p) = True"
| "is_work a = False"

text \<open>A tick fails when one of its calls throws or \<open>handleIncoming\<close> answers with a
  runtime error.\<close>

definition failing :: "tick_results \<Rightarrow> bool" where
  "failing res =
     ((case picked res of None \<Rightarrow> False | Some ob \<Rightarrow> isl (marked res)) \<or>
      (case reply res of Inl e \<Rightarrow> True | Inr text \<Rightarrow> startsWith text ''Runtime error:''))"

text \<open>The runtime lets a tick start: it is not busy and there is no queue or task pressure.\<close>

definition lets_start :: "autonomous_loop \<Rightarrow> tick_env \<Rightarrow> bool" where
  "lets_start s env = (\<not> isBusy env \<and> \<not> shouldSkipForQueuePressure s env \<and> \<not> fst (getTaskPressure env))"

text \<open>
  The loop as a state machine. A tick is begun by the interval timer, which fires only
  while it is installed, or by \<open>start\<close> (also when \<open>applyConfig\<close> calls it); a tick in
  flight settles when its awaited calls have come back. \<open>None\<close> means that the step
  cannot happen in the state.
\<close>

datatype auto_step =
  Start tick_env
| Stop
| ApplyConfig auto_patch tick_env
| TimerFires tick_env
| TickSettles tick_results

fun auto_next :: "autonomous_loop \<Rightarrow> auto_step \<Rightarrow> (autonomous_loop \<times> auto_action list) option" where
  "auto_next s (Start env) = Some (auto_start s env)"
| "auto_next s Stop = Some (auto_stop s)"
| "auto_next s (ApplyConfig nxt env) = Some (applyConfig s nxt env)"
| "auto_next s (TimerFires env) =
     (if timer s then (case tick_begin s env of (started, s1, a1) \<Rightarrow> Some (s1, a1)) else None)"
| "auto_next s (TickSettles res) = (if running s then Some (tick_body s res) else None)"

fun auto_run :: "autonomous_loop \<Rightarrow> auto_step list \<Rightarrow> (autonomous_loop \<times> auto_action list) option" where
  "auto_run s [] = Some (s, [])"
| "auto_run s (st # rest) =
     (case auto_next s st of
        None \<Rightarrow> None
      | Some (s1, a1) \<Rightarrow>
          (case auto_run s1 rest of None \<Rightarrow> None | Some (s2, a2) \<Rightarrow> Some (s2, a1 @ a2)))"

text \<open>A call of \<open>applyConfig\<close> that leaves the loop enabled.\<close>

fun reenables :: "autonomous_loop \<Rightarrow> auto_step \<Rightarrow> bool" where
  "reenables s (ApplyConfig nxt env) =
     (case next_enabled nxt of None \<Rightarrow> enabled (autoConfig s) | Some b \<Rightarrow> b)"
| "reenables s st = False"

fun no_reenable :: "autonomous_loop \<Rightarrow> auto_step list \<Rightarrow> bool" where
  "no_reenable s [] = True"
| "no_reenable s (st # rest) =
     (\<not> reenables s st \<and>
      (case auto_next s st of None \<Rightarrow> True | Some (s1, a1) \<Rightarrow> no_reenable s1 rest))"

text \<open>The steps in which a tick is called: the timer firing, and \<open>start\<close> when it gets
  past its guard.\<close>

fun calls_tick :: "autonomous_loop \<Rightarrow> auto_step \<Rightarrow> bool" where
  "calls_tick s (TimerFires env) = timer s"
| "calls_tick s (Start env) = (enabled (autoConfig s) \<and> \<not> timer s)"
| "calls_tick s st = False"

text \<open>
  Two facts that hold in every state the loop can reach: the timer is installed only
  while the loop is enabled, and no tick is in flight while \<open>disabledReason\<close> is set.
\<close>

definition loop_wf :: "autonomous_loop \<Rightarrow> bool" where
  "loop_wf s = ((timer s \<longrightarrow> enabled (autoConfig s)) \<and> (disabledReason s \<noteq> None \<longrightarrow> \<not> running s))"

text \<open>A concrete loop for the examples: two failures trip the breaker.\<close>

definition demo_cfg :: auto_config where
  "demo_cfg = \<lparr>enabled = True, goal = [], intervalMs = None, skipWhenQueueAbove = None,
     maxConsecutiveFailures = Some 2, stalePendingHours = None, staleInProgressIdleHours = None\<rparr>"

definition demo_env :: tick_env where
  "demo_env = \<lparr>isBusy = False, queueDepth = 0, taskHealth = None, maxConcurrentTasks = None, tick_now = 1\<rparr>"

definition demo_failure :: tick_results where
  "demo_failure = \<lparr>staleChangedCount = 0, picked = None, marked = Inr None, reply = Inl (Error ''boom'')\<rparr>"

definition demo_switch_off :: auto_patch where
  "demo_switch_off = \<lparr>next_enabled = Some False, next_goal = None, next_intervalMs = None,
     next_skipWhenQueueAbove = None, next_maxConsecutiveFailures = None,
     next_stalePendingHours = None, next_staleInProgressIdleHours = None\<rparr>"

definition demo_switch_on :: auto_patch where
  "demo_switch_on = demo_switch_off\<lparr>next_enabled := Some True\<rparr>"

definition demo_one_failure :: autonomous_loop where
  "demo_one_failure =
     \<lparr>autoConfig = demo_cfg, timer = True, running = True, lastTickAt = Some 1,
       lastError = Some ''boom'', consecutiveFailures = 1, totalTicks = 2, skippedTicks = 0,
       disabledReason = None\<rparr>"

definition demo_tripped :: autonomous_loop where
  "demo_tripped =
     \<lparr>autoConfig = demo_cfg, timer = True, running = False, lastTickAt = Some 1,
       lastError = Some ''boom'', consecutiveFailures = 2, totalTicks = 2, skippedTicks = 0,
       disabledReason = Some ''disabled after 2 consecutive failures''\<rparr>"

section \<open>Hashing\<close>

text \<open>
  The source hashes with \<open>crypto.createHash(name).update(text).digest(...)\<close>. The two
  algorithms it names are the standard SHA-1 and SHA-256 of FIPS 180-4, given here on
  bytes, with the constants of the standard in decimal. A string is hashed through its UTF-8 encoding.
\<close>

type_synonym byte = "8 word"

definition utf8_encode :: "string \<Rightarrow> byte list" where
  "utf8_encode s =
     concat (map (\<lambda>c. let n = of_char c :: nat
                        in if n < 128 then [of_nat n]
                           else [of_nat (192 + n div 64), of_nat (128 + n mod 64)]) s)"

definition be32 :: "byte list \<Rightarrow> 32 word" where
  "be32 bs = foldl (\<lambda>acc b. push_bit 8 acc OR ucast b) 0 bs"

definition bytes_of32 :: "32 word \<Rightarrow> byte list" where
  "bytes_of32 w = [ucast (drop_bit 24 w), ucast (drop_bit 16 w), ucast (drop_bit 8 w), ucast w]"

definition bytes_of64 :: "64 word \<Rightarrow> byte list" where
  "bytes_of64 w = map (\<lambda>i. ucast (drop_bit (8 * (7 - i)) w)) [0..<8]"

text \<open>Padding to a multiple of 64 bytes: a one bit, zeros, and the length in bits.\<close>

definition sha_pad :: "byte list \<Rightarrow> byte list" where
  "sha_pad m =
     m @ [0x80] @ replicate ((119 - length m mod 64) mod 64) 0 @ bytes_of64 (of_nat (8 * length m))"

fun chop :: "nat \<Rightarrow> 'a list \<Rightarrow> 'a list list" where
  "chop n xs = (if n = 0 \<or> xs = [] then [] else take n xs # chop n (drop n xs))"

declare chop.simps [simp del]

definition rotr :: "nat \<Rightarrow> 32 word \<Rightarrow> 32 word" where
  "rotr n w = drop_bit n w OR push_bit (32 - n) w"

definition rotl :: "nat \<Rightarrow> 32 word \<Rightarrow> 32 word" where
  "rotl n w = push_bit n w OR drop_bit (32 - n) w"

definition hex_digit :: "nat \<Rightarrow> char" where
  "hex_digit n = (if n < 10 then char_of (48 + n) else char_of (87 + n))"

definition hex_of_byte :: "byte \<Rightarrow> string" where
  "hex_of_byte b = [hex_digit (unat b div 16), hex_digit (unat b mod 16)]"

definition hex :: "byte list \<Rightarrow> string" where
  "hex bs = concat (map hex_of_byte bs)"

subsection \<open>SHA-256\<close>

definition sha256_k :: "32 word list" where
  "sha256_k =
    [1116352408, 1899447441, 3049323471, 3921009573, 961987163, 1508970993, 2453635748, 2870763221,
     3624381080, 310598401, 607225278, 1426881987, 1925078388, 2162078206, 2614888103, 3248222580,
     3835390401, 4022224774, 264347078, 604807628, 770255983, 1249150122, 1555081692, 1996064986,
     2554220882, 2821834349, 2952996808, 3210313671, 3336571891, 3584528711, 113926993, 338241895,
     666307205, 773529912, 1294757372, 1396182291, 1695183700, 1986661051, 2177026350, 2456956037,
     2730485921, 2820302411, 3259730800, 3345764771, 3516065817, 3600352804, 4094571909, 275423344,
     430227734, 506948616, 659060556, 883997877, 958139571, 1322822218, 1537002063, 1747873779,
     1955562222, 2024104815, 2227730452, 2361852424, 2428436474, 2756734187, 3204031479, 3329325298]"

definition sha256_init :: "32 word list" where
  "sha256_init =
    [1779033703, 3144134277, 1013904242, 2773480762, 1359893119, 2600822924, 528734635, 1541459225]"

text \<open>The message schedule, newest word first.\<close>

fun sha256_schedule :: "nat \<Rightarrow> 32 word list \<Rightarrow> 32 word list" where
  "sha256_schedule 0 ws = ws"
| "sha256_schedule (Suc n) ws =
     (let w2 = ws ! 1; w7 = ws ! 6; w15 = ws ! 14; w16 = ws ! 15;
          s0 = rotr 7 w15 XOR rotr 18 w15 XOR drop_bit 3 w15;
          s1 = rotr 17 w2 XOR rotr 19 w2 XOR drop_bit 10 w2
      in sha256_schedule n ((w16 + s0 + w7 + s1) # ws))"

definition sha256_round :: "32 word list \<Rightarrow> 32 word \<times> 32 word \<Rightarrow> 32 word list" where
  "sha256_round st kw =
     (case st of
        [a, b, c, d, e, f, g, h] \<Rightarrow>
          let s1 = rotr 6 e XOR rotr 11 e XOR rotr 25 e;
              ch = (e AND f) XOR (NOT e AND g);
              t1 = h + s1 + ch + fst kw + snd kw;
              s0 = rotr 2 a XOR rotr 13 a XOR rotr 22 a;
              mj = (a AND b) XOR (a AND c) XOR (b AND c);
              t2 = s0 + mj
          in [t1 + t2, a, b, c, d + t1, e, f, g]
      | _ \<Rightarrow> st)"

definition sha256_block :: "32 word list \<Rightarrow> byte list \<Rightarrow> 32 word list" where
  "sha256_block st block =
     (let w = rev (sha256_schedule 48 (rev (map be32 (chop 4 block))))
      in map2 (+) st (foldl sha256_round st (zip sha256_k w)))"

definition sha256 :: "byte list \<Rightarrow> byte list" where
  "sha256 m = concat (map bytes_of32 (foldl sha256_block sha256_init (chop 64 (sha_pad m))))"

subsection \<open>SHA-1\<close>

definition sha1_init :: "32 word list" where
  "sha1_init = [1732584193, 4023233417, 2562383102, 271733878, 3285377520]"

fun sha1_schedule :: "nat \<Rightarrow> 32 word list \<Rightarrow> 32 word list" where
  "sha1_schedule 0 ws = ws"
| "sha1_schedule (Suc n) ws =
     sha1_schedule n (rotl 1 (ws ! 2 XOR ws ! 7 XOR ws ! 13 XOR ws ! 15) # ws)"

definition sha1_round :: "32 word list \<Rightarrow> nat \<times> 32 word \<Rightarrow> 32 word list" where
  "sha1_round st tw =
     (case st of
        [a, b, c, d, e] \<Rightarrow>
          let t = fst tw;
              f = (if t < 20 then (b AND c) OR (NOT b AND d)
                   else if t < 40 then b XOR c XOR d
                   else if t < 60 then (b AND c) OR (b AND d) OR (c AND d)
                   else b XOR c XOR d);
              k = (if t < 20 then 0x5A827999 else if t < 40 then 0x6ED9EBA1
                   else if t < 60 then 0x8F1BBCDC else 0xCA62C1D6)
          in [rotl 5 a + f + e + k + snd tw, a, rotl 30 b, c, d]
      | _ \<Rightarrow> st)"

definition sha1_block :: "32 word list \<Rightarrow> byte list \<Rightarrow> 32 word list" where
  "sha1_block st block =
     (let w = rev (sha1_schedule 64 (rev (map be32 (chop 4 block))))
      in map2 (+) st (foldl sha1_round st (zip [0..<80] w)))"

definition sha1 :: "byte list \<Rightarrow> byte list" where
  "sha1 m = concat (map bytes_of32 (foldl sha1_block sha1_init (chop 64 (sha_pad m))))"

text \<open>\<open>crypto.createHash(name).update(text)\<close> for the two names the source uses, with
  \<open>digest()\<close> and \<open>digest("hex")\<close>.\<close>

datatype hash_algorithm = SHA1 | SHA256

definition createHash_digest :: "hash_algorithm \<Rightarrow> string \<Rightarrow> byte list" where
  "createHash_digest alg text =
     (case alg of SHA1 \<Rightarrow> sha1 (utf8_encode text) | SHA256 \<Rightarrow> sha256 (utf8_encode text))"

definition createHash_hex :: "hash_algorithm \<Rightarrow> string \<Rightarrow> string" where
  "createHash_hex alg text = hex (createHash_digest alg text)"

section \<open>Memory store: splitting markdown into chunks\<close>

definition hashText :: "string \<Rightarrow> string" where
  "hashText text = createHash_hex SHA256 text"

text \<open>\<open>String.prototype.split\<close> on a one-character separator: always at least one part.\<close>

fun split_on :: "char \<Rightarrow> string \<Rightarrow> string list" where
  "split_on c [] = [[]]"
| "split_on c (x # xs) =
     (if x = c then [] # split_on c xs
      else (case split_on c xs of l # ls \<Rightarrow> (x # l) # ls | [] \<Rightarrow> [[x]]))"

definition newline :: char where
  "newline = CHR 0x0A"

text \<open>A piece of a markdown file, as the splitters return it.\<close>

record piece =
  startLine :: nat
  endLine :: nat
  piece_text :: string
  piece_hash :: string

text \<open>The variables of \<open>splitMarkdownIntoChunks\<close> that its loop and \<open>flush\<close> share.\<close>

record split_state =
  chunks :: "piece list"
  currentLines :: "string list"
  currentChars :: int
  split_startLine :: nat

text \<open>The lines \<open>flush\<close> keeps for the overlap: it walks back from the last line until
  the kept characters reach \<open>overlapChars\<close>. The lines come in reversed.\<close>

fun keep_tail :: "int \<Rightarrow> int \<Rightarrow> string list \<Rightarrow> string list \<Rightarrow> string list" where
  "keep_tail overlapChars keepChars [] kept = kept"
| "keep_tail overlapChars keepChars (line # earlier) kept =
     (if keepChars + (int (length line) + 1) \<ge> overlapChars then line # kept
      else keep_tail overlapChars (keepChars + (int (length line) + 1)) earlier (line # kept))"

definition flush :: "int \<Rightarrow> split_state \<Rightarrow> split_state" where
  "flush overlapChars st =
     (if currentLines st = [] then st
      else
        let text = js_trim (join [newline] (currentLines st)) in
        if text = [] then st\<lparr>currentLines := [], currentChars := 0\<rparr>
        else
          let st1 = st\<lparr>chunks := chunks st @
                      [\<lparr>startLine = split_startLine st,
                        endLine = split_startLine st + length (currentLines st) - 1,
                        piece_text = text,
                        piece_hash = hashText text\<rparr>]\<rparr>
          in if overlapChars \<le> 0 then st1\<lparr>currentLines := [], currentChars := 0\<rparr>
             else
               let kept = keep_tail overlapChars 0 (rev (currentLines st)) [];
                   offset = length (currentLines st) - length kept
               in st1\<lparr>split_startLine := split_startLine st + offset,
                       currentLines := kept,
                       currentChars := sum_list (map (\<lambda>line. int (length line) + 1) kept)\<rparr>)"

text \<open>One round of the \<open>for\<close> loop, for the line at index \<open>idx\<close>.\<close>

definition split_step :: "int \<Rightarrow> int \<Rightarrow> split_state \<Rightarrow> nat \<times> string \<Rightarrow> split_state" where
  "split_step maxChars overlapChars st il =
     (let idx = fst il; line = snd il;
          lineSize = int (length line) + 1;
          st1 = (if currentLines st = [] then st\<lparr>split_startLine := idx + 1\<rparr> else st);
          shouldFlush = (currentChars st1 + lineSize > maxChars \<and> currentLines st1 \<noteq> []);
          st2 = (if shouldFlush
                 then (let f = flush overlapChars st1
                       in if currentLines f = [] then f\<lparr>split_startLine := idx + 1\<rparr> else f)
                 else st1)
      in st2\<lparr>currentLines := currentLines st2 @ [line],
              currentChars := currentChars st2 + lineSize\<rparr>)"

definition splitMarkdownIntoChunks :: "string \<Rightarrow> int \<Rightarrow> int \<Rightarrow> piece list" where
  "splitMarkdownIntoChunks content maxChars overlapChars =
     (let lines = split_on newline content in
      if lines = [] then []
      else chunks (flush overlapChars
             (foldl (split_step maxChars overlapChars)
                \<lparr>chunks = [], currentLines = [], currentChars = 0, split_startLine = 1\<rparr>
                (zip [0..<length lines] lines))))"

text \<open>The test \<open>/^##\s+/\<close>.\<close>

definition is_section_heading :: "string \<Rightarrow> bool" where
  "is_section_heading line = (case line of a # b # c # rest \<Rightarrow> a = CHR ''#'' \<and> b = CHR ''#'' \<and> is_js_space c | _ \<Rightarrow> False)"

text \<open>\<open>flush(endExclusive)\<close> of \<open>splitMarkdownBySections\<close>, on the pair of \<open>sections\<close>
  and \<open>start\<close>.\<close>

definition section_flush ::
  "string list \<Rightarrow> int \<Rightarrow> piece list \<times> nat \<Rightarrow> nat \<Rightarrow> piece list \<times> nat" where
  "section_flush lines maxSectionChars acc endExclusive =
     (let sections = fst acc; start = snd acc in
      if endExclusive \<le> start then acc
      else
        let blockLines = take (endExclusive - start) (drop start lines);
            text = js_trim (join [newline] blockLines)
        in if text = [] then (sections, endExclusive)
           else
             let startLine = start + 1; endLine = endExclusive in
             if int (length text) \<le> maxSectionChars
             then (sections @ [\<lparr>startLine = startLine, endLine = endLine,
                                 piece_text = text, piece_hash = hashText text\<rparr>], endExclusive)
             else
               let nested = splitMarkdownIntoChunks text (max 900 (maxSectionChars * 3 div 4)) 120
               in (sections @
                     map (\<lambda>p. \<lparr>startLine = startLine + piece.startLine p - 1,
                                endLine = startLine + piece.endLine p - 1,
                                piece_text = piece_text p,
                                piece_hash = piece_hash p\<rparr>) nested,
                   endExclusive))"

definition splitMarkdownBySections :: "string \<Rightarrow> int \<Rightarrow> piece list" where
  "splitMarkdownBySections content maxSectionChars =
     (let lines = split_on newline content in
      if lines = [] then []
      else
        let acc = foldl (\<lambda>acc i. if is_section_heading (lines ! i)
                                  then section_flush lines maxSectionChars acc i else acc)
                    ([], 0) [1..<length lines]
        in fst (section_flush lines maxSectionChars acc (length lines)))"

section \<open>Memory store: text helpers\<close>

definition toLowerCase_char :: "char \<Rightarrow> char" where
  "toLowerCase_char c =
     (let n = of_char c :: nat
      in if (65 \<le> n \<and> n \<le> 90) \<or> (192 \<le> n \<and> n \<le> 222 \<and> n \<noteq> 215) then char_of (n + 32) else c)"

definition toLowerCase :: "string \<Rightarrow> string" where
  "toLowerCase s = map toLowerCase_char s"

definition js_includes :: "string \<Rightarrow> string \<Rightarrow> bool" where
  "js_includes s sub = list_ex (\<lambda>i. startsWith (drop i s) sub) [0..<Suc (length s)]"

text \<open>\<open>replace(/\s+/g, " ")\<close>; the flag tells that the character before was white space.\<close>

fun collapse_spaces :: "bool \<Rightarrow> string \<Rightarrow> string" where
  "collapse_spaces after_space [] = []"
| "collapse_spaces after_space (c # cs) =
     (if is_js_space c
      then (if after_space then collapse_spaces True cs else CHR 0x20 # collapse_spaces True cs)
      else c # collapse_spaces False cs)"

definition normalizeConversationContent :: "string \<Rightarrow> string" where
  "normalizeConversationContent text = toLowerCase (js_trim (collapse_spaces False text))"

text \<open>A word character of a regular expression, for \<open>\b\<close>.\<close>

definition is_word_char :: "char \<Rightarrow> bool" where
  "is_word_char c =
     (let n = of_char c :: nat
      in (48 \<le> n \<and> n \<le> 57) \<or> (65 \<le> n \<and> n \<le> 90) \<or> (97 \<le> n \<and> n \<le> 122) \<or> n = 95)"

text \<open>\<open>/^(health ping|healthcheck|health check|ping|status|check health)\b/\<close>: one of the
  words at the start, not followed by a word character.\<close>

definition looksLikeHealthPing :: "string \<Rightarrow> bool" where
  "looksLikeHealthPing text =
     (text \<noteq> [] \<and>
      list_ex (\<lambda>w. startsWith text w \<and> (case drop (length w) text of [] \<Rightarrow> True | c # cs \<Rightarrow> \<not> is_word_char c))
        [''health ping'', ''healthcheck'', ''health check'', ''ping'', ''status'', ''check health''])"

text \<open>The case-insensitive test for a word that makes an autonomous reply worth keeping.\<close>

definition meaningful :: "string \<Rightarrow> bool" where
  "meaningful contentRaw =
     list_ex (\<lambda>w. js_includes (toLowerCase contentRaw) w)
       [''completed'', ''blocked'', ''failed'', ''critical'', ''decision'', ''objective'',
        ''created objective'', ''updated objective'', ''error'', ''exception'', ''deploy'',
        ''release'', ''fix'', ''bug'']"

definition STOPWORDS :: "string list" where
  "STOPWORDS =
     [''the'', ''and'', ''for'', ''that'', ''this'', ''with'', ''from'', ''have'', ''will'', ''were'',
      ''your'', ''about'', ''into'', ''after'', ''before'', ''while'', ''there'', ''where'', ''when'',
      ''what'', ''which'', ''whose'', ''would'', ''could'', ''should'', ''task'', ''agent'', ''user'',
      ''assistant'', ''code'', ''need'', ''done'', ''next'', ''then'']"

definition is_token_char :: "char \<Rightarrow> bool" where
  "is_token_char c =
     (let n = of_char c :: nat in (48 \<le> n \<and> n \<le> 57) \<or> (97 \<le> n \<and> n \<le> 122) \<or> n = 95)"

text \<open>\<open>split(/[^a-z0-9_]+/)\<close> without the empty parts, which \<open>tokenize\<close> filters out
  anyway: the maximal runs of token characters. \<open>cur\<close> is the run being read.\<close>

fun token_runs :: "string \<Rightarrow> string \<Rightarrow> string list" where
  "token_runs cur [] = (if cur = [] then [] else [cur])"
| "token_runs cur (c # cs) =
     (if is_token_char c then token_runs (cur @ [c]) cs
      else (if cur = [] then token_runs [] cs else cur # token_runs [] cs))"

definition tokenize :: "string \<Rightarrow> string list" where
  "tokenize text =
     filter (\<lambda>token. length token \<ge> 2 \<and> token \<notin> set STOPWORDS) (token_runs [] (toLowerCase text))"

text \<open>\<open>safeSessionFileName\<close>: \<open>replace(/[^a-zA-Z0-9_.-]+/g, "_")\<close>, then the underscores at
  both ends are removed, then \<open>slice(0, 120)\<close>.\<close>

definition is_file_char :: "char \<Rightarrow> bool" where
  "is_file_char c = (is_word_char c \<or> c = CHR ''.'' \<or> c = CHR ''-'')"

fun replace_unsafe :: "bool \<Rightarrow> string \<Rightarrow> string" where
  "replace_unsafe after_unsafe [] = []"
| "replace_unsafe after_unsafe (c # cs) =
     (if is_file_char c then c # replace_unsafe False cs
      else (if after_unsafe then replace_unsafe True cs else CHR ''_'' # replace_unsafe True cs))"

definition strip_underscores :: "string \<Rightarrow> string" where
  "strip_underscores s =
     rev (dropWhile (\<lambda>c. c = CHR ''_'') (rev (dropWhile (\<lambda>c. c = CHR ''_'') s)))"

definition safeSessionFileName :: "string \<Rightarrow> string" where
  "safeSessionFileName sessionKey = take 120 (strip_underscores (replace_unsafe False (js_trim sessionKey)))"

text \<open>
  Time stamps in file names and headings: the source writes the ISO form of the date and
  the local calendar day; here they are the number of milliseconds and the number of the
  day, in decimal. No property below reads them back.
\<close>

definition toISOString :: "nat \<Rightarrow> string" where
  "toISOString ms = decimal ms"

definition toDayKey :: "nat \<Rightarrow> string" where
  "toDayKey ms = decimal (ms div 86400000)"

definition path_join :: "string \<Rightarrow> string \<Rightarrow> string" where
  "path_join dir name = dir @ ''/'' @ name"

section \<open>Memory store: entries and state\<close>

text \<open>A record of the raw conversation log. \<open>raw_createdAt\<close> is \<open>Date.parse\<close> of the
  stored time stamp; \<open>None\<close> when that is not a finite number.\<close>

record raw_entry =
  raw_id :: string
  raw_kind :: string
  raw_actor :: string
  raw_content :: string
  raw_source :: string
  raw_tags :: "string list"
  raw_createdAt :: "nat option"
  raw_sessionKey :: string

record compact_entry =
  compact_id :: string
  compact_title :: string
  compact_content :: string
  compact_source :: string
  compact_tags :: "string list"
  compact_createdAt :: "nat option"

datatype source_type = Memory_main | Memory_daily | Session | Extra | Soul | Compact | Raw

record knowledge_chunk =
  chunk_id :: string
  chunk_hash :: string
  chunk_text :: string
  chunk_path :: string
  chunk_sourceType :: source_type
  chunk_startLine :: nat
  chunk_endLine :: nat
  chunk_vector :: "real list"
  chunk_reason :: string

text \<open>A row of the index file on disk.\<close>

record index_row =
  row_hash :: string
  row_path :: string
  row_sourceType :: source_type
  row_startLine :: nat
  row_endLine :: nat
  row_vector :: "real list"

datatype embedding_provider = Auto | Openai | Gemini | Local

record vector_config =
  vec_enabled :: bool
  vec_provider :: embedding_provider
  vec_model :: string
  vec_dims :: real
  vec_batchSize :: nat
  vec_cacheEnabled :: bool

record search_config =
  vectorWeight :: real
  textWeight :: real
  minScore :: real

record bm25_stats =
  docFreq :: "(string \<times> nat) list"
  avgDocLen :: real
  docs :: nat

text \<open>
  The store. After the fields of the object come the files it owns: the lines of the raw
  JSONL file, the markdown files by path, the index file and the embedding cache file.
\<close>

record memory_store =
  memoryMainPath :: string
  memoryDailyDir :: string
  sessionMemoryDir :: string
  soulMainPath :: string
  sessionMemoryEnabled :: bool
  vector :: vector_config
  searchCfg :: search_config
  rawEntries :: "raw_entry list"
  compactEntries :: "compact_entry list"
  soulMainText :: string
  embeddingCache :: "(string \<times> real list) list"
  knowledgeChunks :: "knowledge_chunk list"
  bm25 :: bm25_stats
  indexDirty :: bool
  lastIndexedAt :: "nat option"
  lastIndexError :: "string option"
  watchSyncTimer :: bool
  closed :: bool
  rawFile :: "raw_entry list"
  markdownFiles :: "(string \<times> string) list"
  indexFile :: "index_row list option"
  embeddingCacheFile :: "(string \<times> real list) list option"

section \<open>Memory store: appending a conversation turn\<close>

definition six_hours :: nat where
  "six_hours = 6 * 60 * 60 * 1000"

text \<open>The body of the loop over the recent entries: whether this earlier entry makes
  \<open>shouldSkipConversationEntry\<close> return true.\<close>

definition repeats :: "string \<Rightarrow> string \<Rightarrow> string \<Rightarrow> nat option \<Rightarrow> raw_entry \<Rightarrow> bool" where
  "repeats actor source content currentTs prev =
     (if toLowerCase (raw_actor prev) \<noteq> actor then False
      else if toLowerCase (raw_source prev) \<noteq> source then False
      else
        let prevNorm = normalizeConversationContent (raw_content prev) in
        if prevNorm = [] \<or> prevNorm \<noteq> content then False
        else (case (currentTs, raw_createdAt prev) of
                (Some c, Some p) \<Rightarrow> c \<ge> p \<and> c - p < six_hours
              | _ \<Rightarrow> True))"

definition shouldSkipConversationEntry :: "raw_entry \<Rightarrow> raw_entry list \<Rightarrow> bool" where
  "shouldSkipConversationEntry entry recentEntries =
     (let actor = toLowerCase (js_trim (raw_actor entry));
          source = toLowerCase (js_trim (raw_source entry));
          contentRaw = raw_content entry;
          content = normalizeConversationContent contentRaw
      in if content = [] then True
         else if actor = ''user'' \<and> looksLikeHealthPing content \<and>
                 (startsWith source ''cli:'' \<or> startsWith source ''dashboard:'' \<or>
                  startsWith source ''slack:'' \<or> startsWith source ''telegram:'') then True
         else if actor = ''assistant'' \<and> startsWith content ''pong'' \<and>
                 js_includes content ''nxclaw is healthy'' then True
         else if actor = ''user'' \<and> startsWith source ''autonomous:'' \<and>
                 (startsWith content ''[autonomous maintenance cycle]'' \<or>
                  startsWith content ''[autonomous objective cycle]'') then True
         else if actor = ''assistant'' \<and> startsWith source ''autonomous:'' \<and>
                 \<not> meaningful contentRaw \<and> length content < 420 then True
         else
           let recent = drop (length recentEntries - 120) recentEntries
           in list_ex (repeats actor source content (raw_createdAt entry)) recent)"

definition appendText :: "(string \<times> string) list \<Rightarrow> string \<Rightarrow> string \<Rightarrow> (string \<times> string) list" where
  "appendText files filePath v =
     (case map_of files filePath of
        None \<Rightarrow> files @ [(filePath, v)]
      | Some old \<Rightarrow> map (\<lambda>(p, c). if p = filePath then (p, c @ v) else (p, c)) files)"

definition appendDailyLog :: "memory_store \<Rightarrow> string \<Rightarrow> string \<Rightarrow> string \<Rightarrow> string \<Rightarrow> nat \<Rightarrow> memory_store" where
  "appendDailyLog s title content source sessionKey now =
     (let body = js_trim content in
      if body = [] then s
      else
        let ts = toISOString now;
            file = path_join (memoryDailyDir s) (toDayKey now @ ''.md'');
            lines = join [newline]
              [[], ''## '' @ ts @ '' | '' @ title @ '' | '' @ source @
                     (if sessionKey = [] then [] else '' | session='' @ sessionKey),
               [], body, []]
        in s\<lparr>markdownFiles := appendText (markdownFiles s) file lines, indexDirty := True\<rparr>)"

definition appendSessionMemory :: "memory_store \<Rightarrow> string \<Rightarrow> string \<Rightarrow> string \<Rightarrow> string \<Rightarrow> nat \<Rightarrow> memory_store" where
  "appendSessionMemory s sessionKey actor content source now =
     (if \<not> sessionMemoryEnabled s then s
      else
        let text = js_trim content in
        if text = [] then s
        else
          let safe = safeSessionFileName (if sessionKey = [] then ''default'' else sessionKey);
              file = path_join (sessionMemoryDir s) (safe @ ''.md'');
              ts = toISOString now;
              lines = join [newline]
                [[], ''## '' @ ts @ '' | '' @ (if actor = [] then ''actor'' else actor) @ '' | '' @ source,
                 [], text, []]
          in s\<lparr>markdownFiles := appendText (markdownFiles s) file lines, indexDirty := True\<rparr>)"

text \<open>
  \<open>addConversation\<close>; \<open>uuid\<close> and \<open>now\<close> are the values of \<open>crypto.randomUUID()\<close> and of
  the clock. The result \<open>None\<close> is the source's \<open>null\<close>.
\<close>

definition addConversation ::
  "memory_store \<Rightarrow> string \<Rightarrow> string option \<Rightarrow> string option \<Rightarrow> string list \<Rightarrow> string \<Rightarrow> string \<Rightarrow> nat
     \<Rightarrow> raw_entry option \<times> memory_store" where
  "addConversation s actor content source tags sessionKey uuid now =
     (let entry = \<lparr>
            raw_id = uuid,
            raw_kind = ''raw'',
            raw_actor = actor,
            raw_content = js_trim (str_or_empty content),
            raw_source = (case source of None \<Rightarrow> ''unknown'' | Some src \<Rightarrow> src),
            raw_tags = tags,
            raw_createdAt = Some now,
            raw_sessionKey = sessionKey \<rparr>
      in if raw_content entry = [] then (None, s)
         else if shouldSkipConversationEntry entry (rawEntries s) then (None, s)
         else
           let s1 = s\<lparr>rawEntries := rawEntries s @ [entry], rawFile := rawFile s @ [entry]\<rparr>;
               s2 = appendDailyLog s1 ((if actor = [] then ''actor'' else actor) @ '' message'')
                      (raw_content entry) (raw_source entry) (raw_sessionKey entry) now;
               s3 = appendSessionMemory s2 (raw_sessionKey entry)
                      (if actor = [] then ''actor'' else actor) (raw_content entry) (raw_source entry) now
           in (Some entry, s3))"

text \<open>The entry that \<open>addConversation\<close> builds, and the text of its \<open>source\<close> argument.\<close>

definition new_entry ::
  "string \<Rightarrow> string option \<Rightarrow> string option \<Rightarrow> string list \<Rightarrow> string \<Rightarrow> string \<Rightarrow> nat \<Rightarrow> raw_entry" where
  "new_entry actor content source tags sessionKey uuid now =
     \<lparr>raw_id = uuid, raw_kind = ''raw'', raw_actor = actor,
      raw_content = js_trim (str_or_empty content),
      raw_source = (case source of None \<Rightarrow> ''unknown'' | Some src \<Rightarrow> src),
      raw_tags = tags, raw_createdAt = Some now, raw_sessionKey = sessionKey\<rparr>"

definition source_text :: "string option \<Rightarrow> string" where
  "source_text source = (case source of None \<Rightarrow> ''unknown'' | Some src \<Rightarrow> src)"

text \<open>A store for the examples, and a busy conversation in it: a user turn, then \<open>n\<close>
  assistant turns, each with a text of its own.\<close>

definition demo_store :: memory_store where
  "demo_store = \<lparr>
     memoryMainPath = ''/m/MEMORY.md'', memoryDailyDir = ''/m/daily'', sessionMemoryDir = ''/m/sessions'',
     soulMainPath = ''/m/SOUL.md'', sessionMemoryEnabled = True,
     vector = \<lparr>vec_enabled = True, vec_provider = Local, vec_model = ''text-embedding-3-small'',
                vec_dims = 32, vec_batchSize = 32, vec_cacheEnabled = True\<rparr>,
     searchCfg = \<lparr>vectorWeight = 0.65, textWeight = 0.35, minScore = 0.12\<rparr>,
     rawEntries = [], compactEntries = [], soulMainText = [], embeddingCache = [],
     knowledgeChunks = [], bm25 = \<lparr>docFreq = [], avgDocLen = 1, docs = 1\<rparr>,
     indexDirty = True, lastIndexedAt = None, lastIndexError = None, watchSyncTimer = False, closed = False,
     rawFile = [], markdownFiles = [], indexFile = None, embeddingCacheFile = None\<rparr>"

definition demo_entry :: raw_entry where
  "demo_entry = \<lparr>raw_id = ''u1'', raw_kind = ''raw'', raw_actor = ''user'',
      raw_content = ''hello there'', raw_source = ''cli:local'',
      raw_tags = [], raw_createdAt = Some 1000, raw_sessionKey = ''s1''\<rparr>"

definition demo_first :: "raw_entry option \<times> memory_store" where
  "demo_first =
     addConversation demo_store ''user'' (Some ''hello there'') (Some ''cli:local'') [] ''s1'' ''u1'' 1000"

fun busy :: "nat \<Rightarrow> memory_store \<Rightarrow> memory_store" where
  "busy 0 s = s"
| "busy (Suc n) s =
     snd (addConversation (busy n s) ''assistant'' (Some (replicate (Suc n) CHR ''x''))
            (Some ''cli:local'') [] ''s1'' (replicate (Suc n) CHR ''r'') (2000 + n))"

text \<open>The entry of the \<open>n\<close>-th assistant turn of the busy conversation.\<close>

definition filler :: "nat \<Rightarrow> raw_entry" where
  "filler n = new_entry ''assistant'' (Some (replicate (Suc n) CHR ''x'')) (Some ''cli:local'') []
                ''s1'' (replicate (Suc n) CHR ''r'') (2000 + n)"

section \<open>Memory store: vectors and embedding\<close>

definition cosineSimilarity :: "real list \<Rightarrow> real list \<Rightarrow> real" where
  "cosineSimilarity a b =
     (if a = [] \<or> b = [] then 0
      else
        let size = min (length a) (length b);
            av = take size a; bv = take size b;
            dot = sum_list (map2 (*) av bv);
            normA = sum_list (map (\<lambda>v. v * v) av);
            normB = sum_list (map (\<lambda>v. v * v) bv)
        in if normA = 0 \<or> normB = 0 then 0 else dot / (sqrt normA * sqrt normB))"

definition normalizeVector :: "real list \<Rightarrow> real list" where
  "normalizeVector v =
     (let norm = sum_list (map (\<lambda>x. x * x) v)
      in if norm \<le> 0 then v else map (\<lambda>x. x * (1 / sqrt norm)) v)"

text \<open>One round of the loop of \<open>localEmbedText\<close>: the SHA-1 digest of the token picks
  the index, the sign and the weight.\<close>

definition embed_token :: "real list \<Rightarrow> string \<Rightarrow> real list" where
  "embed_token v token =
     (let digest = createHash_digest SHA1 token;
          idx = (unat (digest ! 0) * 256 + unat (digest ! 1)) mod length v;
          sign = (if unat (digest ! 2) mod 2 = 0 then 1 else - 1);
          weight = 1 + real (unat (digest ! 3) mod 7) * 0.1
      in v[idx := v ! idx + sign * weight])"

text \<open>
  \<open>new Array(len)\<close> for a number \<open>len\<close> throws a \<open>RangeError\<close> ("Invalid array length")
  unless \<open>len\<close> is a whole number from 0 to \<open>2^32 - 1\<close>.
\<close>

definition valid_array_length :: "real \<Rightarrow> bool" where
  "valid_array_length len \<longleftrightarrow> 0 \<le> len \<and> len \<le> 4294967295 \<and> of_int \<lfloor>len\<rfloor> = len"

text \<open>\<open>localEmbedText\<close>; \<open>None\<close> when \<open>new Array\<close> throws.\<close>

definition localEmbedText :: "string \<Rightarrow> real \<Rightarrow> real list option" where
  "localEmbedText text dims =
     (if \<not> valid_array_length (max 8 dims) then None
      else
        let v = replicate (nat \<lfloor>max 8 dims\<rfloor>) 0; tokens = tokenize text
        in Some (if tokens = [] then v else normalizeVector (foldl embed_token v tokens)))"

text \<open>\<open>texts.map((text) => localEmbedText(text, dims))\<close>, which throws if one call does.\<close>

definition embed_locally :: "real \<Rightarrow> string list \<Rightarrow> real list list option" where
  "embed_locally dims texts = those (map (\<lambda>text. localEmbedText text dims) texts)"

text \<open>
  What lies outside the store: the API keys of the environment, and what the two
  embedding services answer. \<open>OpenAI_data\<close> carries, for each row of \<open>payload.data\<close>, its
  \<open>embedding\<close> when that is an array; \<open>Gemini_values\<close> carries \<open>payload.embedding.values\<close>
  when that is an array. A call that throws (network failure, malformed JSON) is the
  first constructor of each type.
\<close>

datatype openai_response = OpenAI_throws | OpenAI_not_ok | OpenAI_data "real list option list"

datatype gemini_response = Gemini_throws | Gemini_not_ok | Gemini_values "real list option"

record embed_env =
  OPENAI_API_KEY :: "string option"
  GEMINI_API_KEY :: "string option"
  openai_fetch :: "string list \<Rightarrow> openai_response"
  gemini_fetch :: "string \<Rightarrow> gemini_response"

text \<open>
  The \<open>vector\<close> part of the constructor. \<open>dims\<close> arrives as a finite number, whole or
  not, or not as a number at all (\<open>None\<close>: left out, or \<open>NaN\<close>), and is kept as it is
  when it is above 32; \<open>batchSize\<close> is taken to be a whole number or left out.
\<close>

definition new_vector_config ::
  "bool \<Rightarrow> embedding_provider \<Rightarrow> string \<Rightarrow> real option \<Rightarrow> nat option \<Rightarrow> bool \<Rightarrow> vector_config" where
  "new_vector_config en provider model dims batchSize cacheEnabled =
     \<lparr>vec_enabled = en, vec_provider = provider,
      vec_model = (if model = [] then ''text-embedding-3-small'' else model),
      vec_dims = max 32 (case dims of None \<Rightarrow> 256 | Some d \<Rightarrow> if d = 0 then 256 else d),
      vec_batchSize = max 1 (case batchSize of None \<Rightarrow> 32 | Some b \<Rightarrow> if b = 0 then 32 else b),
      vec_cacheEnabled = cacheEnabled\<rparr>"

definition key_present :: "string option \<Rightarrow> bool" where
  "key_present k = (case k of None \<Rightarrow> False | Some v \<Rightarrow> v \<noteq> [])"

definition resolveEmbeddingProvider :: "memory_store \<Rightarrow> embed_env \<Rightarrow> embedding_provider" where
  "resolveEmbeddingProvider s env =
     (case vec_provider (vector s) of
        Openai \<Rightarrow> Openai
      | Gemini \<Rightarrow> Gemini
      | Local \<Rightarrow> Local
      | Auto \<Rightarrow> if key_present (OPENAI_API_KEY env) then Openai
                else if key_present (GEMINI_API_KEY env) then Gemini
                else Local)"

text \<open>The two remote embedders; \<open>None\<close> when the call throws, be it the request or a
  local embedding that takes the place of a missing answer.\<close>

definition embedWithOpenAi :: "memory_store \<Rightarrow> embed_env \<Rightarrow> string list \<Rightarrow> real list list option" where
  "embedWithOpenAi s env texts =
     (let dims = vec_dims (vector s) in
      if \<not> key_present (map_option js_trim (OPENAI_API_KEY env))
      then embed_locally dims texts
      else
        (case openai_fetch env texts of
           OpenAI_throws \<Rightarrow> None
         | OpenAI_not_ok \<Rightarrow> embed_locally dims texts
         | OpenAI_data rows \<Rightarrow>
             if rows = [] then embed_locally dims texts
             else those (map (\<lambda>(text, idx).
                     (case (if idx < length rows then rows ! idx else None) of
                        None \<Rightarrow> localEmbedText text dims
                      | Some v \<Rightarrow> Some (normalizeVector v)))
                   (zip texts [0..<length texts]))))"

fun gemini_each :: "memory_store \<Rightarrow> embed_env \<Rightarrow> string list \<Rightarrow> real list list option" where
  "gemini_each s env [] = Some []"
| "gemini_each s env (text # rest) =
     (case gemini_fetch env text of
        Gemini_throws \<Rightarrow> None
      | Gemini_not_ok \<Rightarrow>
          (case localEmbedText text (vec_dims (vector s)) of
             None \<Rightarrow> None
           | Some v \<Rightarrow> map_option ((#) v) (gemini_each s env rest))
      | Gemini_values values \<Rightarrow>
          (case (case values of
                   None \<Rightarrow> localEmbedText text (vec_dims (vector s))
                 | Some v \<Rightarrow> if v = [] then localEmbedText text (vec_dims (vector s))
                             else Some (normalizeVector v)) of
             None \<Rightarrow> None
           | Some v \<Rightarrow> map_option ((#) v) (gemini_each s env rest)))"

definition embedWithGemini :: "memory_store \<Rightarrow> embed_env \<Rightarrow> string list \<Rightarrow> real list list option" where
  "embedWithGemini s env texts =
     (if \<not> key_present (map_option js_trim (GEMINI_API_KEY env))
      then embed_locally (vec_dims (vector s)) texts
      else gemini_each s env texts)"

text \<open>The vectors of one batch of \<open>embedTexts\<close>, with the \<open>catch\<close> that falls back to
  the local embedding; \<open>None\<close> when the \<open>catch\<close> block throws.\<close>

definition embed_batch :: "memory_store \<Rightarrow> embed_env \<Rightarrow> string list \<Rightarrow> real list list option" where
  "embed_batch s env batchTexts =
     (let locally = embed_locally (vec_dims (vector s)) batchTexts;
          provider = resolveEmbeddingProvider s env;
          attempt = (if \<not> vec_enabled (vector s) \<or> provider = Local then locally
                     else if provider = Openai then embedWithOpenAi s env batchTexts
                     else if provider = Gemini then embedWithGemini s env batchTexts
                     else locally)
      in case attempt of None \<Rightarrow> locally | Some vs \<Rightarrow> Some vs)"

text \<open>A batch with the vector of each of its texts: the one at its place among the
  vectors of the batch, or, if there is none, the local embedding with the default
  dimension.\<close>

definition batch_pairs ::
  "memory_store \<Rightarrow> embed_env \<Rightarrow> string list \<Rightarrow> (string \<times> real list) list option" where
  "batch_pairs s env batch =
     (case embed_batch s env batch of
        None \<Rightarrow> None
      | Some vectors \<Rightarrow>
          those (map (\<lambda>(text, idx).
                   map_option (Pair text)
                     (if idx < length vectors then Some (vectors ! idx) else localEmbedText text 256))
                 (zip batch [0..<length batch])))"

text \<open>The batches in their order, up to the first one that throws; the flag tells
  whether none did.\<close>

fun embed_batches ::
  "memory_store \<Rightarrow> embed_env \<Rightarrow> string list list \<Rightarrow> (string \<times> real list) list \<times> bool" where
  "embed_batches s env [] = ([], True)"
| "embed_batches s env (batch # batches) =
     (case batch_pairs s env batch of
        None \<Rightarrow> ([], False)
      | Some pairs \<Rightarrow> (pairs @ fst (embed_batches s env batches), snd (embed_batches s env batches)))"

definition cache_set :: "(string \<times> real list) list \<Rightarrow> string \<Rightarrow> real list \<Rightarrow> (string \<times> real list) list" where
  "cache_set m k v =
     (if k \<in> set (map fst m) then map (\<lambda>(k', v'). if k' = k then (k', v) else (k', v')) m
      else m @ [(k, v)])"

text \<open>The results of \<open>embedTexts\<close> in the order of the texts: a cached vector, or the
  next embedded one; a place left empty gets the local embedding.\<close>

fun fill_results ::
  "(string \<Rightarrow> real list option) \<Rightarrow> real \<Rightarrow> string list \<Rightarrow> (string \<times> real list) list \<Rightarrow>
   real list list option" where
  "fill_results cached dims [] embedded = Some []"
| "fill_results cached dims (text # rest) embedded =
     (case cached text of
        Some v \<Rightarrow> map_option ((#) v) (fill_results cached dims rest embedded)
      | None \<Rightarrow>
          (case embedded of
             [] \<Rightarrow> (case localEmbedText text dims of
                      None \<Rightarrow> None
                    | Some v \<Rightarrow> map_option ((#) v) (fill_results cached dims rest []))
           | (t, v) # others \<Rightarrow> map_option ((#) v) (fill_results cached dims rest others)))"

text \<open>
  \<open>embedTexts\<close>. The texts without a usable cached vector go to the provider in batches.
  The cache takes the vectors of the batches that did not throw, and its file is
  written, when \<open>cache\<close> is set and the cache is enabled. The result is \<open>None\<close> when
  \<open>embedTexts\<close> throws.
\<close>

definition embedTexts ::
  "memory_store \<Rightarrow> embed_env \<Rightarrow> string list \<Rightarrow> bool \<Rightarrow> real list list option \<times> memory_store" where
  "embedTexts s env texts cache =
     (let cached = (\<lambda>text. if cache then (case map_of (embeddingCache s) (hashText text) of
                                            Some v \<Rightarrow> if v = [] then None else Some v
                                          | None \<Rightarrow> None)
                             else None);
          missing = filter (\<lambda>text. cached text = None) texts;
          size = max 1 (vec_batchSize (vector s));
          (embedded, ok) = embed_batches s env (chop size missing);
          s1 = (if cache \<and> vec_cacheEnabled (vector s)
                then s\<lparr>embeddingCache :=
                         foldl (\<lambda>m (text, v). cache_set m (hashText text) v) (embeddingCache s) embedded\<rparr>
                else s)
      in if \<not> ok then (None, s1)
         else
           let s2 = (if cache \<and> vec_cacheEnabled (vector s) \<and> missing \<noteq> []
                     then s1\<lparr>embeddingCacheFile := Some (embeddingCache s1)\<rparr> else s1)
           in (fill_results cached (vec_dims (vector s)) texts embedded, s2))"

section \<open>Memory store: the knowledge index\<close>

definition classifyPathSource :: "memory_store \<Rightarrow> string \<Rightarrow> source_type" where
  "classifyPathSource s filePath =
     (if filePath = memoryMainPath s then Memory_main
      else if startsWith filePath (sessionMemoryDir s @ ''/'') \<or> filePath = sessionMemoryDir s then Session
      else if startsWith filePath (memoryDailyDir s @ ''/'') \<or> filePath = memoryDailyDir s then Memory_daily
      else Extra)"

definition readTextOrDefault :: "(string \<times> string) list \<Rightarrow> string \<Rightarrow> string" where
  "readTextOrDefault files filePath = (case map_of files filePath of None \<Rightarrow> [] | Some c \<Rightarrow> c)"

text \<open>\<open>collectTokenStats\<close>: in how many chunks each token occurs, the mean number of
  tokens of a chunk, and the number of chunks.\<close>

definition chunk_len :: "string \<Rightarrow> nat" where
  "chunk_len text = (if tokenize text = [] then 1 else length (tokenize text))"

definition collectTokenStats :: "knowledge_chunk list \<Rightarrow> bm25_stats" where
  "collectTokenStats cs =
     (let toks = remdups (concat (map (\<lambda>c. tokenize (chunk_text c)) cs));
          totalLen = sum_list (map (\<lambda>c. chunk_len (chunk_text c)) cs)
      in \<lparr>docFreq = map (\<lambda>t. (t, length (filter (\<lambda>c. t \<in> set (tokenize (chunk_text c))) cs))) toks,
          avgDocLen = max 1 (if cs = [] then 1 else real totalLen / real (length cs)),
          docs = max 1 (length cs)\<rparr>)"

text \<open>The vectors of the previous index file by hash; a later row wins.\<close>

definition prev_vectors :: "index_row list option \<Rightarrow> string \<Rightarrow> real list option" where
  "prev_vectors file =
     map_of (rev (map (\<lambda>r. (row_hash r, row_vector r))
                    (filter (\<lambda>r. row_hash r \<noteq> []) (case file of None \<Rightarrow> [] | Some rows \<Rightarrow> rows))))"

text \<open>The chunks of one file, each with the vector found for its hash in the previous
  index or in the embedding cache, if any. \<open>uuid\<close> gives the identifiers.\<close>

definition file_chunks ::
  "memory_store \<Rightarrow> string \<Rightarrow> string \<Rightarrow> (nat \<Rightarrow> string) \<Rightarrow> string \<Rightarrow> (knowledge_chunk \<times> bool) list" where
  "file_chunks s reason filePath uuid content =
     (if js_trim content = [] then []
      else
        let sourceType = classifyPathSource s filePath;
            split = (if sourceType = Memory_daily \<or> sourceType = Session
                     then splitMarkdownBySections content (if sourceType = Session then 1800 else 2200)
                     else splitMarkdownIntoChunks content (if sourceType = Memory_main then 1400 else 1100) 180)
        in map (\<lambda>(p, i).
                  let fromPrev = prev_vectors (indexFile s) (piece_hash p);
                      fromCache = map_of (embeddingCache s) (piece_hash p);
                      found = (case fromPrev of
                                 Some v \<Rightarrow> if v \<noteq> [] then Some v
                                           else (case fromCache of
                                                   Some w \<Rightarrow> if w \<noteq> [] then Some w else None
                                                 | None \<Rightarrow> None)
                               | None \<Rightarrow> (case fromCache of
                                            Some w \<Rightarrow> if w \<noteq> [] then Some w else None
                                          | None \<Rightarrow> None))
                  in (\<lparr>chunk_id = uuid i, chunk_hash = piece_hash p, chunk_text = piece_text p,
                       chunk_path = filePath, chunk_sourceType = sourceType,
                       chunk_startLine = startLine p, chunk_endLine = endLine p,
                       chunk_vector = (case found of Some v \<Rightarrow> v | None \<Rightarrow> []),
                       chunk_reason = reason\<rparr>,
                      found \<noteq> None))
             (zip split [0..<length split]))"

text \<open>The chunks that still miss a vector take the embedded ones in their order; one
  for which none is left gets the local embedding.\<close>

fun assign_vectors ::
  "real \<Rightarrow> (knowledge_chunk \<times> bool) list \<Rightarrow> real list list \<Rightarrow> knowledge_chunk list option" where
  "assign_vectors dims [] vs = Some []"
| "assign_vectors dims ((c, True) # rest) vs = map_option ((#) c) (assign_vectors dims rest vs)"
| "assign_vectors dims ((c, False) # rest) [] =
     (case localEmbedText (chunk_text c) dims of
        None \<Rightarrow> None
      | Some v \<Rightarrow> map_option ((#) (c\<lparr>chunk_vector := v\<rparr>)) (assign_vectors dims rest []))"
| "assign_vectors dims ((c, False) # rest) (v # vs) =
     map_option ((#) (c\<lparr>chunk_vector := v\<rparr>)) (assign_vectors dims rest vs)"

text \<open>What the index file keeps of a chunk.\<close>

definition index_row_of :: "knowledge_chunk \<Rightarrow> index_row" where
  "index_row_of c =
     \<lparr>row_hash = chunk_hash c, row_path = chunk_path c, row_sourceType = chunk_sourceType c,
      row_startLine = chunk_startLine c, row_endLine = chunk_endLine c, row_vector = chunk_vector c\<rparr>"

text \<open>
  \<open>syncKnowledgeIndex\<close>, when no other sync is in flight and no file operation fails.
  \<open>files\<close> are the paths that \<open>resolveKnowledgeFiles\<close> found, in its order. What can
  throw inside the \<open>try\<close> is then \<open>new Array\<close> alone, and the \<open>catch\<close> keeps its message.
\<close>

definition syncKnowledgeIndex ::
  "memory_store \<Rightarrow> embed_env \<Rightarrow> string list \<Rightarrow> string \<Rightarrow> (nat \<Rightarrow> string) \<Rightarrow> nat \<Rightarrow> memory_store" where
  "syncKnowledgeIndex s env files reason uuid now =
     (if closed s then s
      else
        let found = concat (map (\<lambda>filePath.
                      file_chunks s reason filePath uuid (readTextOrDefault (markdownFiles s) filePath)) files);
            missing = map (\<lambda>(c, b). chunk_text c) (filter (\<lambda>(c, b). \<not> b) found);
            (vectors, s1) = (if missing \<noteq> [] then embedTexts s env missing True else (Some [], s))
        in case (case vectors of None \<Rightarrow> None
                 | Some vs \<Rightarrow> assign_vectors (vec_dims (vector s)) found vs) of
             None \<Rightarrow> s1\<lparr>lastIndexError := Some ''Invalid array length''\<rparr>
           | Some cs \<Rightarrow>
               s1\<lparr>knowledgeChunks := cs,
                  bm25 := collectTokenStats cs,
                  indexDirty := False,
                  lastIndexedAt := Some now,
                  lastIndexError := None,
                  indexFile := Some (map index_row_of cs)\<rparr>)"

text \<open>For the examples: the store with a one-line long-term file, an environment without
  keys, and one in which the OpenAI service answers every text with a vector of three
  numbers.\<close>

definition demo_notes_store :: memory_store where
  "demo_notes_store = demo_store\<lparr>markdownFiles := [(''/m/MEMORY.md'', ''a'')]\<rparr>"

definition demo_remote_store :: memory_store where
  "demo_remote_store = demo_notes_store\<lparr>vector := (vector demo_store)\<lparr>vec_provider := Openai\<rparr>\<rparr>"

definition demo_local_env :: embed_env where
  "demo_local_env =
     \<lparr>OPENAI_API_KEY = None, GEMINI_API_KEY = None,
      openai_fetch = (\<lambda>texts. OpenAI_throws), gemini_fetch = (\<lambda>text. Gemini_throws)\<rparr>"

definition demo_remote_env :: embed_env where
  "demo_remote_env =
     \<lparr>OPENAI_API_KEY = Some ''k'', GEMINI_API_KEY = None,
      openai_fetch = (\<lambda>texts. OpenAI_data (map (\<lambda>text. Some [1, 0, 0]) texts)),
      gemini_fetch = (\<lambda>text. Gemini_not_ok)\<rparr>"

definition demo_uuid :: "nat \<Rightarrow> string" where
  "demo_uuid i = ''c'' @ decimal i"

section \<open>Properties of the objective queue\<close>

text \<open>
  C10. \<open>ObjectiveQueue.add\<close> with a title that trims to the empty string throws
  "Objective title is required" and leaves the in-memory list and the JSON file as they
  were; with any other title it returns the new objective, which has status pending,
  run count 0 and no notes, the in-memory list is the old one with exactly this objective
  appended, and the file then holds the new list.
\<close>

theorem add_title_required:
  "(js_trim (str_or_empty t) = [] \<longrightarrow>
      add q t d p src uuid now = (Inl (Error ''Objective title is required''), q)) \<and>
   (js_trim (str_or_empty t) \<noteq> [] \<longrightarrow>
      (case add q t d p src uuid now of
         (Inl e, q') \<Rightarrow> False
       | (Inr ob, q') \<Rightarrow>
           objectives q' = objectives q @ [ob] \<and>
           objectives_file q' = Some (objectives q @ [ob]) \<and>
           obj_title ob = js_trim (str_or_empty t) \<and>
           obj_status ob = Pending \<and> obj_runCount ob = 0 \<and> obj_notes ob = []))"
  by (simp add: add_def persist_def Let_def)

theorem add_title_required_witness:
  "js_trim (str_or_empty (Some '' '')) = [] \<and>
   add \<lparr>objectives = [], objectives_file = None\<rparr> (Some '' '') None None ''manual'' ''u1'' 5
     = (Inl (Error ''Objective title is required''), \<lparr>objectives = [], objectives_file = None\<rparr>) \<and>
   js_trim (str_or_empty (Some '' ship it '')) \<noteq> [] \<and>
   (case add \<lparr>objectives = [], objectives_file = None\<rparr> (Some '' ship it '') None None ''manual'' ''u1'' 5 of
      (Inl e, q') \<Rightarrow> False
    | (Inr ob, q') \<Rightarrow>
        objectives q' = [ob] \<and> objectives_file q' = Some [ob] \<and>
        obj_title ob = ''ship it'' \<and>
        obj_status ob = Pending \<and> obj_runCount ob = 0 \<and> obj_notes ob = [])"
proof -
  have e: "js_trim (str_or_empty (Some '' '')) = []"
    by (simp add: js_trim_def js_trimStart_def js_trimEnd_def str_or_empty_def is_js_space_def)
  have n: "js_trim (str_or_empty (Some '' ship it '')) = ''ship it''"
    by (simp add: js_trim_def js_trimStart_def js_trimEnd_def str_or_empty_def is_js_space_def)
  show ?thesis
    using add_title_required [of "Some '' ''" "\<lparr>objectives = [], objectives_file = None\<rparr>" None None "''manual''" "''u1''" 5]
      add_title_required [of "Some '' ship it ''" "\<lparr>objectives = [], objectives_file = None\<rparr>" None None "''manual''" "''u1''" 5]
      e n
    by (simp split: prod.splits sum.splits)
qed

section \<open>Properties of the autonomous loop\<close>

lemma tick_disabled:
  "disabledReason s \<noteq> None \<Longrightarrow>
   tick s env res =
     (if enabled (autoConfig s) then (s\<lparr>skippedTicks := skippedTicks s + 1\<rparr>, [Emit_tick_skip ''disabled''])
      else (s, []))"
  by (simp add: tick_def tick_begin_def)

lemma ticks_disabled:
  "disabledReason s \<noteq> None \<Longrightarrow>
   ticks s xs =
     (if enabled (autoConfig s)
      then (s\<lparr>skippedTicks := skippedTicks s + length xs\<rparr>, replicate (length xs) (Emit_tick_skip ''disabled''))
      else (s, []))"
proof (induction xs arbitrary: s)
  case Nil
  then show ?case by simp
next
  case (Cons x xs)
  obtain env res where x: "x = (env, res)" by (cases x)
  show ?case
  proof (cases "enabled (autoConfig s)")
    case True
    let ?s1 = "s\<lparr>skippedTicks := skippedTicks s + 1\<rparr>"
    have "disabledReason ?s1 \<noteq> None" using Cons.prems by simp
    from Cons.IH [OF this] True Cons.prems show ?thesis
      by (simp add: x tick_disabled)
  next
    case False
    with Cons.IH [OF Cons.prems] Cons.prems show ?thesis
      by (simp add: x tick_disabled)
  qed
qed

lemma tick_catch_counts:
  "consecutiveFailures (fst (tick_catch s m)) = consecutiveFailures s + 1 \<and>
   autoConfig (fst (tick_catch s m)) = autoConfig s \<and>
   running (fst (tick_catch s m)) = running s \<and>
   (disabledReason s \<noteq> None \<longrightarrow> disabledReason (fst (tick_catch s m)) \<noteq> None) \<and>
   (getMaxConsecutiveFailures s \<le> int (consecutiveFailures s) + 1 \<longrightarrow> disabledReason (fst (tick_catch s m)) \<noteq> None) \<and>
   (disabledReason s = None \<and> int (consecutiveFailures s) + 1 < getMaxConsecutiveFailures s \<longrightarrow> disabledReason (fst (tick_catch s m)) = None)"
  by (auto simp add: tick_catch_def Let_def getMaxConsecutiveFailures_def)

lemma tick_body_failing_catch:
  "failing res \<Longrightarrow> \<exists>m. fst (tick_body s res) = (fst (tick_catch s m))\<lparr>running := False\<rparr>"
  by (auto simp add: tick_body_def failing_def Let_def split_beta split: option.splits sum.splits)

lemma tick_body_failing:
  assumes "failing res"
  shows "consecutiveFailures (fst (tick_body s res)) = consecutiveFailures s + 1 \<and>
   autoConfig (fst (tick_body s res)) = autoConfig s \<and>
   running (fst (tick_body s res)) = False \<and>
   (getMaxConsecutiveFailures s \<le> int (consecutiveFailures s) + 1 \<longrightarrow> disabledReason (fst (tick_body s res)) \<noteq> None) \<and>
   (disabledReason s = None \<and> int (consecutiveFailures s) + 1 < getMaxConsecutiveFailures s \<longrightarrow> disabledReason (fst (tick_body s res)) = None)"
proof -
  from tick_body_failing_catch [OF assms] obtain m
    where m: "fst (tick_body s res) = (fst (tick_catch s m))\<lparr>running := False\<rparr>" by blast
  show ?thesis using tick_catch_counts [of s m] by (simp add: m)
qed

text \<open>A failing tick that the runtime lets start, from a loop that is on and idle.\<close>

lemma tick_failing:
  assumes "enabled (autoConfig s)" "disabledReason s = None" "\<not> running s" "lets_start s env" "failing res"
  shows "consecutiveFailures (fst (tick s env res)) = consecutiveFailures s + 1 \<and>
   autoConfig (fst (tick s env res)) = autoConfig s \<and>
   running (fst (tick s env res)) = False \<and>
   (getMaxConsecutiveFailures s \<le> int (consecutiveFailures s) + 1 \<longrightarrow> disabledReason (fst (tick s env res)) \<noteq> None) \<and>
   (int (consecutiveFailures s) + 1 < getMaxConsecutiveFailures s \<longrightarrow> disabledReason (fst (tick s env res)) = None)"
proof -
  let ?s1 = "s\<lparr>running := True, lastTickAt := Some (tick_now env), totalTicks := totalTicks s + 1\<rparr>"
  have b: "tick_begin s env = (True, ?s1, [Emit_tick_start (totalTicks s + 1)])"
    using assms by (simp add: tick_begin_def lets_start_def)
  have t: "fst (tick s env res) = fst (tick_body ?s1 res)"
    by (simp add: tick_def b split_beta)
  have g: "getMaxConsecutiveFailures ?s1 = getMaxConsecutiveFailures s"
    by (simp add: getMaxConsecutiveFailures_def)
  show ?thesis
    using tick_body_failing [OF assms(5), of ?s1] assms(2)
    by (simp add: t getMaxConsecutiveFailures_def)
qed

lemma lets_start_cong: "autoConfig s' = autoConfig s \<Longrightarrow> lets_start s' env = lets_start s env"
  by (simp add: lets_start_def shouldSkipForQueuePressure_def getQueueSkipLimit_def)

lemma getMax_cong: "autoConfig s' = autoConfig s \<Longrightarrow> getMaxConsecutiveFailures s' = getMaxConsecutiveFailures s"
  by (simp add: getMaxConsecutiveFailures_def)

lemma ticks_failing:
  assumes "enabled (autoConfig s)" "disabledReason s = None" "\<not> running s"
    and "\<forall>x \<in> set xs. lets_start s (fst x) \<and> failing (snd x)"
    and "int (consecutiveFailures s) + int (length xs) = getMaxConsecutiveFailures s"
    and "xs \<noteq> []"
  shows "disabledReason (fst (ticks s xs)) \<noteq> None \<and> consecutiveFailures (fst (ticks s xs)) = consecutiveFailures s + length xs"
  using assms
proof (induction xs arbitrary: s)
  case Nil
  then show ?case by simp
next
  case (Cons x xs)
  obtain env res where x: "x = (env, res)" by (cases x)
  let ?s1 = "fst (tick s env res)"
  have ls: "lets_start s env" "failing res" using Cons.prems(4) by (simp_all add: x)
  note step = tick_failing [OF Cons.prems(1) Cons.prems(2) Cons.prems(3) ls]
  have tk: "fst (ticks s (x # xs)) = fst (ticks ?s1 xs)"
    by (simp add: x split_beta)
  show ?case
  proof (cases "xs = []")
    case True
    show ?thesis unfolding tk using True Cons.prems(5) step by simp
  next
    case False
    have lt: "int (consecutiveFailures s) + 1 < getMaxConsecutiveFailures s"
      using Cons.prems(5) False by (cases xs) auto
    have cfg: "autoConfig ?s1 = autoConfig s" using step by simp
    have "disabledReason (fst (ticks ?s1 xs)) \<noteq> None \<and>
          consecutiveFailures (fst (ticks ?s1 xs)) = consecutiveFailures ?s1 + length xs"
    proof (rule Cons.IH)
      show "enabled (autoConfig ?s1)" using cfg Cons.prems(1) by simp
      show "disabledReason ?s1 = None" using step lt by simp
      show "\<not> running ?s1" using step by simp
      show "\<forall>x\<in>set xs. lets_start ?s1 (fst x) \<and> failing (snd x)"
        using Cons.prems(4) by (simp add: lets_start_cong [OF cfg])
      show "int (consecutiveFailures ?s1) + int (length xs) = getMaxConsecutiveFailures ?s1"
        using Cons.prems(5) step by (simp add: getMax_cong [OF cfg])
      show "xs \<noteq> []" by (rule False)
    qed
    with step show ?thesis unfolding tk by simp
  qed
qed

lemma tick_begin_keeps: "disabledReason (fst (snd (tick_begin s env))) = disabledReason s \<and> autoConfig (fst (snd (tick_begin s env))) = autoConfig s"
  by (simp add: tick_begin_def)

lemma auto_start_keeps: "disabledReason (fst (auto_start s env)) = disabledReason s \<and> autoConfig (fst (auto_start s env)) = autoConfig s"
  using tick_begin_keeps [of "s\<lparr>timer := True\<rparr>" env]
  by (simp add: auto_start_def Let_def split_beta)

lemma applyConfig_clears:
  "(enabled (autoConfig (fst (applyConfig s nxt env))) \<longrightarrow> disabledReason (fst (applyConfig s nxt env)) = None) \<and>
   (\<not> enabled (autoConfig (fst (applyConfig s nxt env))) \<longrightarrow> disabledReason (fst (applyConfig s nxt env)) = disabledReason s) \<and>
   enabled (autoConfig (fst (applyConfig s nxt env))) = (case next_enabled nxt of None \<Rightarrow> enabled (autoConfig s) | Some b \<Rightarrow> b)"
  by (simp add: applyConfig_def Let_def split_beta auto_start_keeps auto_stop_def)


lemma tick_begin_wf: "loop_wf s \<Longrightarrow> loop_wf (fst (snd (tick_begin s env)))"
  by (auto simp add: loop_wf_def tick_begin_def)

lemma tick_catch_timer: "timer (fst (tick_catch s m)) = timer s"
  by (simp add: tick_catch_def Let_def)

lemma tick_body_shape:
  "\<exists>t. fst (tick_body s res) = t\<lparr>running := False\<rparr> \<and> timer t = timer s \<and> autoConfig t = autoConfig s"
  by (auto simp add: tick_body_def Let_def split_beta tick_catch_timer tick_catch_counts split: option.splits sum.splits)

lemma tick_body_wf: "loop_wf s \<Longrightarrow> loop_wf (fst (tick_body s res))"
  using tick_body_shape [of s res] by (auto simp add: loop_wf_def)

lemma auto_start_wf: "loop_wf s \<Longrightarrow> loop_wf (fst (auto_start s env))"
proof -
  assume w: "loop_wf s"
  show ?thesis
  proof (cases "\<not> enabled (autoConfig s) \<or> timer s")
    case True
    then show ?thesis using w by (auto simp add: auto_start_def)
  next
    case False
    then have "loop_wf (s\<lparr>timer := True\<rparr>)" using w by (simp add: loop_wf_def)
    from tick_begin_wf [OF this, of env] False show ?thesis
      by (simp add: auto_start_def Let_def split_beta)
  qed
qed

lemma auto_stop_wf: "loop_wf s \<Longrightarrow> loop_wf (fst (auto_stop s))"
  by (simp add: auto_stop_def loop_wf_def)

lemma applyConfig_wf: "loop_wf s \<Longrightarrow> loop_wf (fst (applyConfig s nxt env))"
  by (auto simp add: applyConfig_def Let_def split_beta auto_stop_def loop_wf_def auto_start_def tick_begin_def)

lemma auto_next_wf: "loop_wf s \<Longrightarrow> auto_next s st = Some (s', a) \<Longrightarrow> loop_wf s'"
proof (cases st)
  case (Start env)
  assume "loop_wf s" "auto_next s st = Some (s', a)"
  with auto_start_wf [of s env] Start show ?thesis by auto
next
  case Stop
  assume "loop_wf s" "auto_next s st = Some (s', a)"
  with auto_stop_wf [of s] Stop show ?thesis by auto
next
  case (ApplyConfig nxt env)
  assume "loop_wf s" "auto_next s st = Some (s', a)"
  with applyConfig_wf [of s nxt env] ApplyConfig show ?thesis by auto
next
  case (TimerFires env)
  assume "loop_wf s" "auto_next s st = Some (s', a)"
  with tick_begin_wf [of s env] TimerFires show ?thesis by (auto split: if_splits prod.splits)
next
  case (TickSettles res)
  assume "loop_wf s" "auto_next s st = Some (s', a)"
  with tick_body_wf [of s res] TickSettles show ?thesis by (auto split: if_splits)
qed

lemma auto_run_wf: "loop_wf s \<Longrightarrow> auto_run s steps = Some (s', a) \<Longrightarrow> loop_wf s'"
proof (induction steps arbitrary: s a)
  case Nil
  then show ?case by simp
next
  case (Cons st rest)
  from Cons.prems(2) obtain s1 a1 a2 where
    st: "auto_next s st = Some (s1, a1)" and r: "auto_run s1 rest = Some (s', a2)"
    by (auto split: option.splits)
  from auto_next_wf [OF Cons.prems(1) st] have "loop_wf s1" .
  from Cons.IH [OF this r] show ?case .
qed

lemma new_wf: "loop_wf (new_AutonomousLoop cfg)"
  by (simp add: loop_wf_def new_AutonomousLoop_def)

lemma blocked_step:
  assumes w: "loop_wf s" and d: "disabledReason s \<noteq> None" and st: "auto_next s st = Some (s', a)"
    and nr: "\<not> reenables s st"
  shows "disabledReason s' = disabledReason s \<and> \<not> list_ex is_work a \<and> totalTicks s' = totalTicks s \<and>
         skippedTicks s' = skippedTicks s + (if calls_tick s st then 1 else 0) \<and>
         count_list a (Emit_tick_skip ''disabled'') = (if calls_tick s st then 1 else 0)"
proof (cases st)
  case (Start env)
  with st d show ?thesis
    by (auto simp add: auto_start_def tick_begin_def Let_def)
next
  case Stop
  with st show ?thesis by (auto simp add: auto_stop_def)
next
  case (ApplyConfig nxt env)
  with st nr d show ?thesis
    by (auto simp add: applyConfig_def Let_def auto_stop_def split: option.splits)
next
  case (TimerFires env)
  with st w d show ?thesis
    by (auto simp add: tick_begin_def loop_wf_def split: if_splits)
next
  case (TickSettles res)
  with st w d show ?thesis by (auto simp add: loop_wf_def split: if_splits)
qed

lemma blocked_run:
  assumes "loop_wf s" "disabledReason s \<noteq> None" "auto_run s steps = Some (s', a)" "no_reenable s steps"
  shows "disabledReason s' = disabledReason s \<and> \<not> list_ex is_work a \<and> totalTicks s' = totalTicks s"
  using assms
proof (induction steps arbitrary: s a)
  case Nil
  then show ?case by simp
next
  case (Cons st rest)
  from Cons.prems(3) obtain s1 a1 a2 where
    st: "auto_next s st = Some (s1, a1)" and r: "auto_run s1 rest = Some (s', a2)" and a: "a = a1 @ a2"
    by (auto split: option.splits)
  from Cons.prems(4) st have nr: "\<not> reenables s st" and nrr: "no_reenable s1 rest" by simp_all
  note one = blocked_step [OF Cons.prems(1) Cons.prems(2) st nr]
  have w1: "loop_wf s1" by (rule auto_next_wf [OF Cons.prems(1) st])
  have d1: "disabledReason s1 \<noteq> None" using one Cons.prems(2) by simp
  from Cons.IH [OF w1 d1 r nrr] one show ?case by (simp add: a)
qed

lemma settle_failing:
  assumes "auto_next s (TickSettles res) = Some (s', a)" "failing res"
  shows "consecutiveFailures s' = consecutiveFailures s + 1 \<and>
         (getMaxConsecutiveFailures s' \<le> int (consecutiveFailures s') \<longrightarrow> disabledReason s' \<noteq> None)"
proof -
  from assms(1) have e: "s' = fst (tick_body s res)" by (auto split: if_splits)
  have "getMaxConsecutiveFailures s' = getMaxConsecutiveFailures s"
    using tick_body_failing [OF assms(2), of s] by (simp add: e getMaxConsecutiveFailures_def)
  then show ?thesis using tick_body_failing [OF assms(2), of s] by (simp add: e)
qed


text \<open>
  C7. In every state the loop reaches from its construction: when a failing tick
  settles, the count of consecutive failures goes up by one, and if it has then reached
  \<open>maxConsecutiveFailures\<close>, \<open>disabledReason\<close> is set. While \<open>disabledReason\<close> is set, no
  step other than an \<open>applyConfig\<close> that leaves the loop enabled changes it, and none
  calls the objective queue or the orchestrator (no reload, \<open>expireStale\<close>, pick,
  \<open>markPicked\<close> or \<open>handleIncoming\<close>); a step that calls \<open>tick\<close> raises
  \<open>skippedTicks\<close> by one and emits one skip event with reason "disabled", and
  \<open>totalTicks\<close> stays. The same holds along any run of such steps. An \<open>applyConfig\<close>
  that leaves the loop enabled clears \<open>disabledReason\<close>. And a run of failing ticks
  that brings the count of consecutive failures of an enabled, idle loop up to
  \<open>maxConsecutiveFailures\<close> sets \<open>disabledReason\<close>.
\<close>

theorem circuit_breaker:
  assumes "map_option fst (auto_run (new_AutonomousLoop cfg) history) = Some s"
  shows
    "(map_option fst (auto_next s (TickSettles res)) = Some s1 \<and> failing res \<longrightarrow>
        consecutiveFailures s1 = consecutiveFailures s + 1 \<and>
        (getMaxConsecutiveFailures s1 \<le> int (consecutiveFailures s1) \<longrightarrow> disabledReason s1 \<noteq> None)) \<and>
     (disabledReason s \<noteq> None \<and> auto_next s st = Some (s2, a2) \<and> \<not> reenables s st \<longrightarrow>
        disabledReason s2 = disabledReason s \<and> \<not> list_ex is_work a2 \<and>
        totalTicks s2 = totalTicks s \<and>
        skippedTicks s2 = skippedTicks s + (if calls_tick s st then 1 else 0) \<and>
        count_list a2 (Emit_tick_skip ''disabled'') = (if calls_tick s st then 1 else 0)) \<and>
     (disabledReason s \<noteq> None \<and> auto_run s steps = Some (s3, a3) \<and> no_reenable s steps \<longrightarrow>
        disabledReason s3 = disabledReason s \<and> \<not> list_ex is_work a3 \<and> totalTicks s3 = totalTicks s) \<and>
     (reenables s (ApplyConfig nxt env) \<longrightarrow> disabledReason (fst (applyConfig s nxt env)) = None) \<and>
     (enabled (autoConfig s) \<and> disabledReason s = None \<and> \<not> running s \<and> xs \<noteq> [] \<and>
      (\<forall>x \<in> set xs. lets_start s (fst x) \<and> failing (snd x)) \<and>
      int (consecutiveFailures s) + int (length xs) = getMaxConsecutiveFailures s \<longrightarrow>
        disabledReason (fst (ticks s xs)) \<noteq> None)"
proof -
  from assms obtain a0 where r: "auto_run (new_AutonomousLoop cfg) history = Some (s, a0)"
    by auto
  have w: "loop_wf s" by (rule auto_run_wf [OF new_wf r])
  have c4: "reenables s (ApplyConfig nxt env) \<longrightarrow> disabledReason (fst (applyConfig s nxt env)) = None"
    using applyConfig_clears [of s nxt env] by simp
  have c5: "enabled (autoConfig s) \<and> disabledReason s = None \<and> \<not> running s \<and> xs \<noteq> [] \<and>
      (\<forall>x \<in> set xs. lets_start s (fst x) \<and> failing (snd x)) \<and>
      int (consecutiveFailures s) + int (length xs) = getMaxConsecutiveFailures s \<longrightarrow>
        disabledReason (fst (ticks s xs)) \<noteq> None"
    using ticks_failing [of s xs] by blast
  have c1: "map_option fst (auto_next s (TickSettles res)) = Some s1 \<and> failing res \<longrightarrow>
        consecutiveFailures s1 = consecutiveFailures s + 1 \<and>
        (getMaxConsecutiveFailures s1 \<le> int (consecutiveFailures s1) \<longrightarrow> disabledReason s1 \<noteq> None)"
    using settle_failing [of s res s1] by auto
  show ?thesis
    using c1 blocked_step [OF w, of st s2 a2]
      blocked_run [OF w, of steps s3 a3] c4 c5
    by blast
qed


theorem circuit_breaker_witness:
  "map_option fst (auto_run (new_AutonomousLoop demo_cfg)
      [Start demo_env, TickSettles demo_failure, TimerFires demo_env]) = Some demo_one_failure \<and>
   map_option fst (auto_next demo_one_failure (TickSettles demo_failure)) = Some demo_tripped \<and>
   failing demo_failure \<and>
   getMaxConsecutiveFailures demo_tripped \<le> int (consecutiveFailures demo_tripped) \<and>
   disabledReason demo_tripped \<noteq> None \<and>
   map_option fst (auto_run (new_AutonomousLoop demo_cfg)
      [Start demo_env, TickSettles demo_failure, TimerFires demo_env, TickSettles demo_failure])
     = Some demo_tripped \<and>
   auto_next demo_tripped (TimerFires demo_env)
     = Some (demo_tripped\<lparr>skippedTicks := 1\<rparr>, [Emit_tick_skip ''disabled'']) \<and>
   \<not> reenables demo_tripped (TimerFires demo_env) \<and>
   calls_tick demo_tripped (TimerFires demo_env) \<and>
   \<not> list_ex is_work [Emit_tick_skip ''disabled''] \<and>
   auto_run demo_tripped [TimerFires demo_env, ApplyConfig demo_switch_off demo_env, Start demo_env]
     = Some (demo_tripped\<lparr>autoConfig := demo_cfg\<lparr>enabled := False\<rparr>, timer := False, skippedTicks := 1\<rparr>,
             [Emit_tick_skip ''disabled'', Call_runtime_setChannelHealth False, Emit_loop_stop]) \<and>
   no_reenable demo_tripped [TimerFires demo_env, ApplyConfig demo_switch_off demo_env, Start demo_env] \<and>
   \<not> list_ex is_work [Emit_tick_skip ''disabled'', Call_runtime_setChannelHealth False, Emit_loop_stop] \<and>
   reenables demo_tripped (ApplyConfig demo_switch_on demo_env) \<and>
   disabledReason (fst (applyConfig demo_tripped demo_switch_on demo_env)) = None \<and>
   enabled (autoConfig (new_AutonomousLoop demo_cfg)) \<and>
   lets_start (new_AutonomousLoop demo_cfg) demo_env \<and>
   int (consecutiveFailures (new_AutonomousLoop demo_cfg)) +
     int (length [(demo_env, demo_failure), (demo_env, demo_failure)])
     = getMaxConsecutiveFailures (new_AutonomousLoop demo_cfg) \<and>
   disabledReason (fst (ticks (new_AutonomousLoop demo_cfg)
     [(demo_env, demo_failure), (demo_env, demo_failure)])) \<noteq> None"
proof -
  have h1: "map_option fst (auto_run (new_AutonomousLoop demo_cfg)
      [Start demo_env, TickSettles demo_failure, TimerFires demo_env]) = Some demo_one_failure"
    by code_simp
  have h2: "map_option fst (auto_run (new_AutonomousLoop demo_cfg)
      [Start demo_env, TickSettles demo_failure, TimerFires demo_env, TickSettles demo_failure])
     = Some demo_tripped"
    by code_simp
  have h0: "map_option fst (auto_run (new_AutonomousLoop demo_cfg) []) = Some (new_AutonomousLoop demo_cfg)"
    by simp
  have s1: "map_option fst (auto_next demo_one_failure (TickSettles demo_failure)) = Some demo_tripped"
    by code_simp
  have f: "failing demo_failure" by code_simp
  have s2: "auto_next demo_tripped (TimerFires demo_env)
     = Some (demo_tripped\<lparr>skippedTicks := 1\<rparr>, [Emit_tick_skip ''disabled''])"
    by code_simp
  have n2: "\<not> reenables demo_tripped (TimerFires demo_env)" by simp
  have s3: "auto_run demo_tripped [TimerFires demo_env, ApplyConfig demo_switch_off demo_env, Start demo_env]
     = Some (demo_tripped\<lparr>autoConfig := demo_cfg\<lparr>enabled := False\<rparr>, timer := False, skippedTicks := 1\<rparr>,
             [Emit_tick_skip ''disabled'', Call_runtime_setChannelHealth False, Emit_loop_stop])"
    by code_simp
  have n3: "no_reenable demo_tripped [TimerFires demo_env, ApplyConfig demo_switch_off demo_env, Start demo_env]"
    by code_simp
  have g: "getMaxConsecutiveFailures demo_tripped \<le> int (consecutiveFailures demo_tripped)" by code_simp
  have r: "reenables demo_tripped (ApplyConfig demo_switch_on demo_env)" by code_simp
  have c: "calls_tick demo_tripped (TimerFires demo_env)" by code_simp
  have e1: "enabled (autoConfig (new_AutonomousLoop demo_cfg))" by code_simp
  have e2: "disabledReason (new_AutonomousLoop demo_cfg) = None" by code_simp
  have e3: "\<not> running (new_AutonomousLoop demo_cfg)" by code_simp
  have e4: "lets_start (new_AutonomousLoop demo_cfg) demo_env" by code_simp
  have e5: "int (consecutiveFailures (new_AutonomousLoop demo_cfg)) +
     int (length [(demo_env, demo_failure), (demo_env, demo_failure)])
     = getMaxConsecutiveFailures (new_AutonomousLoop demo_cfg)" by code_simp
  have c1: "disabledReason demo_tripped \<noteq> None"
    using circuit_breaker [OF h1, of demo_failure demo_tripped, THEN conjunct1] s1 f g by blast
  have c2: "\<not> list_ex is_work [Emit_tick_skip ''disabled'']"
    using circuit_breaker [OF h2, of _ _ "TimerFires demo_env" "demo_tripped\<lparr>skippedTicks := 1\<rparr>"
        "[Emit_tick_skip ''disabled'']", THEN conjunct2, THEN conjunct1] c1 s2 n2
    by blast
  have c3: "\<not> list_ex is_work [Emit_tick_skip ''disabled'', Call_runtime_setChannelHealth False, Emit_loop_stop]"
    using circuit_breaker [OF h2, of _ _ _ _ _
        "[TimerFires demo_env, ApplyConfig demo_switch_off demo_env, Start demo_env]"
        "demo_tripped\<lparr>autoConfig := demo_cfg\<lparr>enabled := False\<rparr>, timer := False, skippedTicks := 1\<rparr>"
        "[Emit_tick_skip ''disabled'', Call_runtime_setChannelHealth False, Emit_loop_stop]",
        THEN conjunct2, THEN conjunct2, THEN conjunct1] c1 s3 n3
    by blast
  have c4: "disabledReason (fst (applyConfig demo_tripped demo_switch_on demo_env)) = None"
    using circuit_breaker [OF h2, of _ _ _ _ _ _ _ _ demo_switch_on demo_env,
        THEN conjunct2, THEN conjunct2, THEN conjunct2, THEN conjunct1] r
    by blast
  have a5: "\<forall>x \<in> set [(demo_env, demo_failure), (demo_env, demo_failure)].
      lets_start (new_AutonomousLoop demo_cfg) (fst x) \<and> failing (snd x)"
    using e4 f by simp
  have c5: "disabledReason (fst (ticks (new_AutonomousLoop demo_cfg)
     [(demo_env, demo_failure), (demo_env, demo_failure)])) \<noteq> None"
    using circuit_breaker [OF h0, of _ _ _ _ _ _ _ _ _ _
        "[(demo_env, demo_failure), (demo_env, demo_failure)]",
        THEN conjunct2, THEN conjunct2, THEN conjunct2, THEN conjunct2] e1 e2 e3 a5 e5
    by blast
  show ?thesis
    by (intro conjI) (fact h1 s1 f g c1 h2 s2 n2 c c2 s3 n3 c3 r c4 e1 e4 e5 c5)+
qed


section \<open>Properties of the lane queue\<close>

text \<open>
  C2, as the code has it. For a function \<open>fn\<close>, \<open>enqueue\<close> throws the overflow error
  exactly when the counter \<open>totalDepth\<close> has reached \<open>maxDepth\<close>; then the queue (lane
  counters, \<open>totalDepth\<close>, lane records, emitted events) is left as it was; and below
  \<open>maxDepth\<close> the call is accepted. The counter is raised by an accepted call and
  lowered again when the entry starts to run, so it counts pending entries only.
\<close>

theorem enqueue_overflow:
  "is_overflow (fst (enqueue q k (Some j) now)) = (maxDepth q \<le> totalDepth q) \<and>
   (maxDepth q \<le> totalDepth q \<longrightarrow>
      enqueue q k (Some j) now = (Inl (QueueOverflow (totalDepth q) (maxDepth q)), q)) \<and>
   (totalDepth q < maxDepth q \<longrightarrow>
      fst (enqueue q k (Some j) now) = Inr () \<and>
      totalDepth (snd (enqueue q k (Some j) now)) = totalDepth q + 1) \<and>
   (run_start q r now = Some q' \<longrightarrow> totalDepth q' = totalDepth q - 1)"
  by (auto simp add: enqueue_def is_overflow_def Let_def split_beta lane_emit_def run_start_def
      split: option.splits list.splits if_splits)

theorem enqueue_overflow_witness:
  "maxDepth (snd (enqueue (new_LaneQueue (Some 1) True) ''a'' (Some 1) 10))
     \<le> totalDepth (snd (enqueue (new_LaneQueue (Some 1) True) ''a'' (Some 1) 10)) \<and>
   enqueue (snd (enqueue (new_LaneQueue (Some 1) True) ''a'' (Some 1) 10)) ''b'' (Some 2) 11
     = (Inl (QueueOverflow 1 1), snd (enqueue (new_LaneQueue (Some 1) True) ''a'' (Some 1) 10)) \<and>
   totalDepth (new_LaneQueue (Some 1) True) < maxDepth (new_LaneQueue (Some 1) True) \<and>
   fst (enqueue (new_LaneQueue (Some 1) True) ''a'' (Some 1) 10) = Inr () \<and>
   run_start (snd (enqueue (new_LaneQueue (Some 1) True) ''a'' (Some 1) 10)) 0 11
     = Some (the (run_start (snd (enqueue (new_LaneQueue (Some 1) True) ''a'' (Some 1) 10)) 0 11)) \<and>
   totalDepth (the (run_start (snd (enqueue (new_LaneQueue (Some 1) True) ''a'' (Some 1) 10)) 0 11)) = 0"
proof -
  let ?q0 = "new_LaneQueue (Some 1) True"
  let ?q1 = "snd (enqueue ?q0 ''a'' (Some 1) 10)"
  have a: "maxDepth ?q1 \<le> totalDepth ?q1" by code_simp
  have b: "totalDepth ?q0 < maxDepth ?q0" by code_simp
  have c: "run_start ?q1 0 11 = Some (the (run_start ?q1 0 11))" by code_simp
  have d: "totalDepth ?q1 = 1" "maxDepth ?q1 = 1" by code_simp+
  have e: "enqueue ?q1 ''b'' (Some 2) 11 = (Inl (QueueOverflow 1 1), ?q1)"
    using enqueue_overflow [of ?q1 "''b''" 2 11, THEN conjunct2, THEN conjunct1] a d by simp
  have f: "fst (enqueue ?q0 ''a'' (Some 1) 10) = Inr ()"
    using enqueue_overflow [of ?q0 "''a''" 1 10, THEN conjunct2, THEN conjunct2, THEN conjunct1] b
    by blast
  have g: "totalDepth (the (run_start ?q1 0 11)) = 0"
    using enqueue_overflow [of ?q1 _ _ 11 0 "the (run_start ?q1 0 11)",
        THEN conjunct2, THEN conjunct2, THEN conjunct2] c d
    by simp
  show ?thesis by (intro conjI) (fact a e b f c g)+
qed

text \<open>
  C2 as stated fails: with \<open>maxDepth = 1\<close> and one entry that has started and not yet
  finished, pending plus active entries are 1, which is not below \<open>maxDepth\<close>, and the
  next call is accepted all the same.
\<close>

theorem enqueue_accepts_while_active:
  "maxDepth (the (run_start (snd (enqueue (new_LaneQueue (Some 1) True) ''a'' (Some 1) 10)) 0 11))
     \<le> pendingPlusActive (the (run_start (snd (enqueue (new_LaneQueue (Some 1) True) ''a'' (Some 1) 10)) 0 11)) \<and>
   fst (enqueue (the (run_start (snd (enqueue (new_LaneQueue (Some 1) True) ''a'' (Some 1) 10)) 0 11))
          ''a'' (Some 2) 12) = Inr ()"
  by code_simp


section \<open>Properties of the markdown splitters\<close>

lemma flush_hashes:
  "\<forall>c \<in> set (chunks st). piece_hash c = hashText (piece_text c) \<Longrightarrow>
   \<forall>c \<in> set (chunks (flush overlapChars st)). piece_hash c = hashText (piece_text c)"
  by (auto simp add: flush_def Let_def)

lemma split_step_hashes:
  "\<forall>c \<in> set (chunks st). piece_hash c = hashText (piece_text c) \<Longrightarrow>
   \<forall>c \<in> set (chunks (split_step maxChars overlapChars st il)). piece_hash c = hashText (piece_text c)"
proof -
  assume a: "\<forall>c \<in> set (chunks st). piece_hash c = hashText (piece_text c)"
  let ?st1 = "if currentLines st = [] then st\<lparr>split_startLine := fst il + 1\<rparr> else st"
  have "\<forall>c \<in> set (chunks ?st1). piece_hash c = hashText (piece_text c)" using a by simp
  from flush_hashes [OF this, of overlapChars] a show ?thesis
    by (simp add: split_step_def Let_def)
qed

lemma foldl_split_step_hashes:
  "\<forall>c \<in> set (chunks st). piece_hash c = hashText (piece_text c) \<Longrightarrow>
   \<forall>c \<in> set (chunks (foldl (split_step maxChars overlapChars) st ils)).
      piece_hash c = hashText (piece_text c)"
proof (induction ils arbitrary: st)
  case Nil
  then show ?case by simp
next
  case (Cons il ils)
  from Cons.IH [OF split_step_hashes [OF Cons.prems]] show ?case by simp
qed

lemma splitMarkdownIntoChunks_hashes:
  "\<forall>c \<in> set (splitMarkdownIntoChunks content maxChars overlapChars).
      piece_hash c = hashText (piece_text c)"
proof -
  let ?init = "\<lparr>chunks = [], currentLines = [], currentChars = 0, split_startLine = 1\<rparr>"
  have "\<forall>c \<in> set (chunks ?init). piece_hash c = hashText (piece_text c)" by simp
  from flush_hashes [OF foldl_split_step_hashes [OF this]] show ?thesis
    by (simp add: splitMarkdownIntoChunks_def Let_def)
qed

lemma section_flush_hashes:
  "\<forall>c \<in> set (fst acc). piece_hash c = hashText (piece_text c) \<Longrightarrow>
   \<forall>c \<in> set (fst (section_flush lines maxSectionChars acc endExclusive)).
      piece_hash c = hashText (piece_text c)"
  using splitMarkdownIntoChunks_hashes
  by (auto simp add: section_flush_def Let_def)

lemma foldl_section_flush_hashes:
  "\<forall>c \<in> set (fst acc). piece_hash c = hashText (piece_text c) \<Longrightarrow>
   \<forall>c \<in> set (fst (foldl (\<lambda>acc i. if is_section_heading (lines ! i)
                                  then section_flush lines maxSectionChars acc i else acc) acc is)).
      piece_hash c = hashText (piece_text c)"
proof (induction "is" arbitrary: acc)
  case Nil
  then show ?case by simp
next
  case (Cons i "is")
  have "\<forall>c \<in> set (fst (if is_section_heading (lines ! i)
            then section_flush lines maxSectionChars acc i else acc)).
          piece_hash c = hashText (piece_text c)"
    using Cons.prems section_flush_hashes [OF Cons.prems] by simp
  from Cons.IH [OF this] show ?case by simp
qed

lemma splitMarkdownBySections_hashes:
  "\<forall>c \<in> set (splitMarkdownBySections content maxSectionChars).
      piece_hash c = hashText (piece_text c)"
proof -
  have "\<forall>c \<in> set (fst (([] :: piece list), 0 :: nat)). piece_hash c = hashText (piece_text c)" by simp
  from section_flush_hashes [OF foldl_section_flush_hashes [OF this]] show ?thesis
    by (simp add: splitMarkdownBySections_def Let_def)
qed

lemma length_sha256_round: "length (sha256_round st kw) = length st"
  by (simp add: sha256_round_def Let_def split: list.splits)

lemma length_foldl_sha256_round: "length (foldl sha256_round st kws) = length st"
  by (induction kws arbitrary: st) (simp_all add: length_sha256_round)

lemma length_sha256_block: "length (sha256_block st b) = length st"
  by (simp add: sha256_block_def Let_def length_foldl_sha256_round)

lemma length_foldl_sha256_block: "length (foldl sha256_block st bs) = length st"
  by (induction bs arbitrary: st) (simp_all add: length_sha256_block)

lemma length_sha1_round: "length (sha1_round st kw) = length st"
  by (simp add: sha1_round_def Let_def split: list.splits)

lemma length_foldl_sha1_round: "length (foldl sha1_round st kws) = length st"
  by (induction kws arbitrary: st) (simp_all add: length_sha1_round)

lemma length_sha1_block: "length (sha1_block st b) = length st"
  by (simp add: sha1_block_def Let_def length_foldl_sha1_round)

lemma length_foldl_sha1_block: "length (foldl sha1_block st bs) = length st"
  by (induction bs arbitrary: st) (simp_all add: length_sha1_block)

lemma length_concat_bytes_of32: "length (concat (map bytes_of32 ws)) = 4 * length ws"
  by (induction ws) (simp_all add: bytes_of32_def)

lemma length_hex: "length (hex bs) = 2 * length bs"
  by (induction bs) (simp_all add: hex_def hex_of_byte_def)

lemma length_sha256: "length (sha256 m) = 32"
  by (simp add: sha256_def length_concat_bytes_of32 length_foldl_sha256_block sha256_init_def)

lemma length_sha1: "length (sha1 m) = 20"
  by (simp add: sha1_def length_concat_bytes_of32 length_foldl_sha1_block sha1_init_def)

lemma length_createHash_hex:
  "length (createHash_hex alg text) = (case alg of SHA1 \<Rightarrow> 40 | SHA256 \<Rightarrow> 64)"
  by (simp add: createHash_hex_def createHash_digest_def length_hex length_sha1 length_sha256
      split: hash_algorithm.splits)

lemma split_single_line:
  "splitMarkdownIntoChunks ''a'' 1100 180 =
     [\<lparr>startLine = 1, endLine = 1, piece_text = ''a'', piece_hash = hashText ''a''\<rparr>]"
  by (simp add: splitMarkdownIntoChunks_def split_step_def flush_def newline_def Let_def join_def
      js_trim_def js_trimEnd_def js_trimStart_def is_js_space_def)

lemma sections_single_line:
  "splitMarkdownBySections ''a'' 2200 =
     [\<lparr>startLine = 1, endLine = 1, piece_text = ''a'', piece_hash = hashText ''a''\<rparr>]"
  by (simp add: splitMarkdownBySections_def section_flush_def newline_def Let_def join_def
      js_trim_def js_trimEnd_def js_trimStart_def is_js_space_def)

text \<open>
  C8, as the code has it. Every chunk that \<open>splitMarkdownIntoChunks\<close> or
  \<open>splitMarkdownBySections\<close> returns carries in its hash field the SHA-256 digest, in
  hexadecimal, of the chunk's text.
\<close>

theorem chunk_hash_is_sha256:
  "(\<forall>c \<in> set (splitMarkdownIntoChunks content maxChars overlapChars).
      piece_hash c = createHash_hex SHA256 (piece_text c)) \<and>
   (\<forall>c \<in> set (splitMarkdownBySections content maxSectionChars).
      piece_hash c = createHash_hex SHA256 (piece_text c))"
  using splitMarkdownIntoChunks_hashes [of content maxChars overlapChars]
    splitMarkdownBySections_hashes [of content maxSectionChars]
  by (simp add: hashText_def)

theorem chunk_hash_is_sha256_witness:
  "splitMarkdownIntoChunks ''a'' 1100 180 =
     [\<lparr>startLine = 1, endLine = 1, piece_text = ''a'', piece_hash = createHash_hex SHA256 ''a''\<rparr>] \<and>
   splitMarkdownBySections ''a'' 2200 =
     [\<lparr>startLine = 1, endLine = 1, piece_text = ''a'', piece_hash = createHash_hex SHA256 ''a''\<rparr>] \<and>
   piece_hash (hd (splitMarkdownIntoChunks ''a'' 1100 180)) = createHash_hex SHA256 ''a'' \<and>
   piece_hash (hd (splitMarkdownBySections ''a'' 2200)) = createHash_hex SHA256 ''a''"
  using chunk_hash_is_sha256 [of "''a''" 1100 180 2200] split_single_line sections_single_line
  by (simp add: hashText_def)

text \<open>
  C8 as stated fails: the hash of the chunk made from the one-line file \<open>a\<close> is not the
  SHA-1 digest of its text (in hexadecimal, the form in which the field holds a digest);
  the two differ already in length, 64 characters against 40.
\<close>

theorem chunk_hash_is_not_sha1:
  "piece_hash (hd (splitMarkdownIntoChunks ''a'' 1100 180))
     \<noteq> createHash_hex SHA1 (piece_text (hd (splitMarkdownIntoChunks ''a'' 1100 180)))"
proof
  assume "piece_hash (hd (splitMarkdownIntoChunks ''a'' 1100 180))
     = createHash_hex SHA1 (piece_text (hd (splitMarkdownIntoChunks ''a'' 1100 180)))"
  then have "createHash_hex SHA256 ''a'' = createHash_hex SHA1 ''a''"
    by (simp add: split_single_line hashText_def)
  then have "length (createHash_hex SHA256 ''a'') = length (createHash_hex SHA1 ''a'')"
    by simp
  then show False by (simp add: length_createHash_hex)
qed


section \<open>Properties of the conversation log\<close>

lemma space_is_js_space: "is_js_space (CHR 0x20)"
  by (simp add: is_js_space_def)

lemma js_trimEnd_Nil: "js_trimEnd [] = []"
  by (simp add: js_trimEnd_def)

lemma js_trimEnd_Cons:
  "js_trimEnd (a # u) = (if js_trimEnd u = [] \<and> is_js_space a then [] else a # js_trimEnd u)"
  by (auto simp add: js_trimEnd_def dropWhile_append dropWhile_eq_Nil_conv)

lemma trimStart_collapse:
  "dropWhile is_js_space (collapse_spaces b x) = collapse_spaces False (dropWhile is_js_space x)"
  by (induction x arbitrary: b) (simp_all add: space_is_js_space)

lemma trimEnd_collapse:
  "js_trimEnd (collapse_spaces b x) = js_trimEnd (collapse_spaces b (js_trimEnd x))"
proof (induction x arbitrary: b)
  case Nil
  then show ?case by (simp add: js_trimEnd_def)
next
  case (Cons c cs)
  have nil: "js_trimEnd [] = []" by (simp add: js_trimEnd_def)
  show ?case
  proof (cases "js_trimEnd cs = []")
    case True
    from Cons.IH [of True] Cons.IH [of False] True have
      "js_trimEnd (collapse_spaces True cs) = []" "js_trimEnd (collapse_spaces False cs) = []"
      by (simp_all add: nil)
    with True show ?thesis by (simp add: js_trimEnd_Cons nil space_is_js_space)
  next
    case False
    with Cons.IH [of True] Cons.IH [of False] show ?thesis
      by (simp add: js_trimEnd_Cons space_is_js_space)
  qed
qed

lemma trimStart_trimEnd: "dropWhile is_js_space (js_trimEnd (dropWhile is_js_space c)) = js_trimEnd (dropWhile is_js_space c)"
proof (cases "dropWhile is_js_space c")
  case Nil
  show ?thesis unfolding Nil by (simp add: js_trimEnd_Nil)
next
  case (Cons a u)
  then have "\<not> is_js_space a" by (metis dropWhile_eq_Cons_conv)
  then show ?thesis by (simp add: Cons js_trimEnd_Cons)
qed

lemma trim_collapse_trim: "js_trim (collapse_spaces False (js_trim c)) = js_trim (collapse_spaces False c)"
proof -
  have "js_trim (collapse_spaces False (js_trim c))
      = js_trimEnd (collapse_spaces False (dropWhile is_js_space (js_trimEnd (dropWhile is_js_space c))))"
    by (simp add: js_trim_def js_trimStart_def trimStart_collapse)
  also have "\<dots> = js_trimEnd (collapse_spaces False (js_trimEnd (dropWhile is_js_space c)))"
    by (simp add: trimStart_trimEnd)
  also have "\<dots> = js_trimEnd (collapse_spaces False (dropWhile is_js_space c))"
    by (rule trimEnd_collapse [symmetric])
  also have "\<dots> = js_trim (collapse_spaces False c)"
    by (simp add: js_trim_def js_trimStart_def trimStart_collapse)
  finally show ?thesis .
qed

lemma normalize_trim: "normalizeConversationContent (js_trim c) = normalizeConversationContent c"
  by (simp add: normalizeConversationContent_def trim_collapse_trim)

lemma appendDailyLog_raw:
  "rawEntries (appendDailyLog s t c src k now) = rawEntries s \<and> rawFile (appendDailyLog s t c src k now) = rawFile s"
  by (simp add: appendDailyLog_def Let_def)

lemma appendSessionMemory_raw:
  "rawEntries (appendSessionMemory s k a c src now) = rawEntries s \<and> rawFile (appendSessionMemory s k a c src now) = rawFile s"
  by (simp add: appendSessionMemory_def Let_def)

lemma addConversation_cases:
  "addConversation s actor content source tags key uuid now =
     (if js_trim (str_or_empty content) = [] \<or>
         shouldSkipConversationEntry (new_entry actor content source tags key uuid now) (rawEntries s)
      then (None, s)
      else (Some (new_entry actor content source tags key uuid now),
            snd (addConversation s actor content source tags key uuid now)))"
  by (simp add: addConversation_def new_entry_def Let_def)

lemma addConversation_stored:
  assumes "addConversation s actor content source tags key uuid now = (Some e, s')"
  shows "e = new_entry actor content source tags key uuid now \<and>
         rawEntries s' = rawEntries s @ [e] \<and> rawFile s' = rawFile s @ [e]"
  using assms
  by (auto simp add: addConversation_def new_entry_def Let_def appendDailyLog_raw appendSessionMemory_raw
      split: if_splits)

lemma repeats_same:
  assumes "js_trim actor = actor" "js_trim src = src"
    and "normalizeConversationContent c2 = normalizeConversationContent c1"
    and "normalizeConversationContent c2 \<noteq> []"
    and "t1 \<le> t2" "t2 - t1 < six_hours"
    and "raw_actor prev = actor" "raw_source prev = src" "raw_content prev = c1" "raw_createdAt prev = Some t1"
  shows "repeats (toLowerCase (js_trim actor)) (toLowerCase (js_trim src))
           (normalizeConversationContent c2) (Some t2) prev"
  using assms by (simp add: repeats_def Let_def)

text \<open>
  C5, as the code has it. A first call of \<open>addConversation\<close> stored its entry \<open>e1\<close> at time
  \<open>t1\<close>. A second call with the same actor and source (both written without white
  space around them) and a content that normalizes to the same text is made at a time
  \<open>t2\<close> less than six hours later, in a store where \<open>e1\<close> is still among the last 120
  raw entries. Then the second call returns null and leaves the whole store, so also the
  raw entry list and the raw JSONL file, as it was. Right after the first call its
  entry is among the last 120, the last of the list and of the file.
\<close>

theorem addConversation_duplicate:
  assumes first: "addConversation s0 actor c1 source tags1 key1 uuid1 t1 = (Some e1, s1)"
    and window: "e1 \<in> set (drop (length (rawEntries s) - 120) (rawEntries s))"
    and same: "normalizeConversationContent (str_or_empty c2) = normalizeConversationContent (str_or_empty c1)"
    and time: "t1 \<le> t2" "t2 - t1 < six_hours"
    and trimmed: "js_trim actor = actor" "js_trim (source_text source) = source_text source"
  shows "addConversation s actor c2 source tags2 key2 uuid2 t2 = (None, s) \<and>
         e1 \<in> set (drop (length (rawEntries s1) - 120) (rawEntries s1)) \<and>
         rawEntries s1 = rawEntries s0 @ [e1] \<and> rawFile s1 = rawFile s0 @ [e1]"
proof -
  note st = addConversation_stored [OF first]
  have e1: "raw_actor e1 = actor" "raw_source e1 = source_text source"
    "raw_content e1 = js_trim (str_or_empty c1)" "raw_createdAt e1 = Some t1"
    using st by (simp_all add: new_entry_def source_text_def)
  let ?e2 = "new_entry actor c2 source tags2 key2 uuid2 t2"
  have skip: "js_trim (str_or_empty c2) \<noteq> [] \<Longrightarrow> shouldSkipConversationEntry ?e2 (rawEntries s)"
  proof -
    assume ne: "js_trim (str_or_empty c2) \<noteq> []"
    let ?content = "normalizeConversationContent (js_trim (str_or_empty c2))"
    show ?thesis
    proof (cases "?content = []")
      case True
      then show ?thesis by (simp add: shouldSkipConversationEntry_def new_entry_def Let_def)
    next
      case False
      have n: "normalizeConversationContent (js_trim (str_or_empty c2)) = normalizeConversationContent (js_trim (str_or_empty c1))"
        using same by (simp add: normalize_trim)
      have "repeats (toLowerCase (js_trim actor)) (toLowerCase (js_trim (source_text source))) ?content (Some t2) e1"
        by (rule repeats_same [OF trimmed n False time e1])
      with window have "list_ex (repeats (toLowerCase (js_trim actor)) (toLowerCase (js_trim (source_text source)))
          ?content (Some t2)) (drop (length (rawEntries s) - 120) (rawEntries s))"
        by (auto simp add: list_ex_iff)
      then show ?thesis
        by (simp add: shouldSkipConversationEntry_def new_entry_def Let_def source_text_def)
    qed
  qed
  have a: "addConversation s actor c2 source tags2 key2 uuid2 t2 = (None, s)"
    using skip by (subst addConversation_cases) auto
  have b: "e1 \<in> set (drop (length (rawEntries s1) - 120) (rawEntries s1))"
    using st by simp
  show ?thesis using a b st by simp
qed


lemmas text_defs = js_trim_def js_trimStart_def js_trimEnd_def is_js_space_def str_or_empty_def
  toLowerCase_def toLowerCase_char_def normalizeConversationContent_def startsWith_def
  js_includes_def looksLikeHealthPing_def meaningful_def is_word_char_def

lemma demo_first_stored: "demo_first = (Some demo_entry, snd demo_first)"
proof -
  have n: "new_entry ''user'' (Some ''hello there'') (Some ''cli:local'') [] ''s1'' ''u1'' 1000 = demo_entry"
    by (simp add: new_entry_def demo_entry_def text_defs)
  have k: "\<not> shouldSkipConversationEntry demo_entry []"
    by (simp add: shouldSkipConversationEntry_def demo_entry_def Let_def text_defs)
  have t: "js_trim (str_or_empty (Some ''hello there'')) \<noteq> []"
    by (simp add: text_defs)
  have r: "rawEntries demo_store = []" by (simp add: demo_store_def)
  show ?thesis
    unfolding demo_first_def
    by (subst addConversation_cases) (simp add: n k t r)
qed

theorem addConversation_duplicate_witness:
  "addConversation demo_store ''user'' (Some ''hello there'') (Some ''cli:local'') [] ''s1'' ''u1'' 1000
     = (Some demo_entry, snd demo_first) \<and>
   demo_entry \<in> set (drop (length (rawEntries (snd demo_first)) - 120) (rawEntries (snd demo_first))) \<and>
   normalizeConversationContent (str_or_empty (Some '' Hello   there ''))
     = normalizeConversationContent (str_or_empty (Some ''hello there'')) \<and>
   (1000 :: nat) \<le> 5000 \<and> (5000 :: nat) - 1000 < six_hours \<and>
   js_trim ''user'' = ''user'' \<and> js_trim (source_text (Some ''cli:local'')) = source_text (Some ''cli:local'') \<and>
   addConversation (snd demo_first) ''user'' (Some '' Hello   there '') (Some ''cli:local'') [] ''s1'' ''u2'' 5000
     = (None, snd demo_first) \<and>
   rawEntries (snd demo_first) = [demo_entry] \<and> rawFile (snd demo_first) = [demo_entry]"
proof -
  have first: "addConversation demo_store ''user'' (Some ''hello there'') (Some ''cli:local'') [] ''s1'' ''u1'' 1000
     = (Some demo_entry, snd demo_first)"
    using demo_first_stored by (simp add: demo_first_def)
  have raw: "rawEntries (snd demo_first) = [demo_entry]" "rawFile (snd demo_first) = [demo_entry]"
    using addConversation_stored [OF first] by (simp_all add: demo_store_def)
  have window: "demo_entry \<in> set (drop (length (rawEntries (snd demo_first)) - 120) (rawEntries (snd demo_first)))"
    by (simp add: raw)
  have same: "normalizeConversationContent (str_or_empty (Some '' Hello   there ''))
     = normalizeConversationContent (str_or_empty (Some ''hello there''))"
    by code_simp
  have t1: "(1000 :: nat) \<le> 5000" by simp
  have t2: "(5000 :: nat) - 1000 < six_hours" by (simp add: six_hours_def)
  have a: "js_trim ''user'' = ''user''" by (simp add: text_defs)
  have b: "js_trim (source_text (Some ''cli:local'')) = source_text (Some ''cli:local'')"
    by (simp add: source_text_def text_defs)
  have c: "addConversation (snd demo_first) ''user'' (Some '' Hello   there '') (Some ''cli:local'') [] ''s1'' ''u2'' 5000
     = (None, snd demo_first)"
    using addConversation_duplicate [OF first window same t1 t2 a b, of "[]" "''s1''" "''u2''"] by simp
  show ?thesis by (intro conjI) (fact first window same t1 t2 a b c raw)+
qed

text \<open>The busy conversation: none of its turns is skipped.\<close>

lemma x_not_space: "\<not> is_js_space CHR ''x''"
  by (simp add: is_js_space_def)

lemma collapse_spaces_xs: "collapse_spaces b (replicate n CHR ''x'') = replicate n CHR ''x''"
  by (induction n arbitrary: b) (simp_all add: x_not_space)

lemma js_trim_xs: "js_trim (replicate n CHR ''x'') = replicate n CHR ''x''"
proof -
  have "dropWhile is_js_space (replicate n CHR ''x'') = replicate n CHR ''x''"
    by (cases n) (simp_all add: x_not_space)
  then show ?thesis by (simp add: js_trim_def js_trimStart_def js_trimEnd_def)
qed

lemma toLowerCase_xs: "toLowerCase (replicate n CHR ''x'') = replicate n CHR ''x''"
  by (simp add: toLowerCase_def toLowerCase_char_def)

lemma normalize_xs: "normalizeConversationContent (replicate n CHR ''x'') = replicate n CHR ''x''"
  by (simp add: normalizeConversationContent_def collapse_spaces_xs js_trim_xs toLowerCase_xs)

lemma filler_fields:
  "raw_actor (filler n) = ''assistant''" "raw_source (filler n) = ''cli:local''"
  "raw_content (filler n) = replicate (Suc n) CHR ''x''" "raw_createdAt (filler n) = Some (2000 + n)"
  by (simp_all add: filler_def new_entry_def str_or_empty_def js_trim_xs del: replicate_Suc)

lemma filler_not_repeating_user:
  "\<not> repeats ''assistant'' src c ts demo_entry"
  by (simp add: repeats_def demo_entry_def toLowerCase_def toLowerCase_char_def)

lemma filler_not_repeating_filler:
  "j < n \<Longrightarrow> \<not> repeats a src (replicate (Suc n) CHR ''x'') ts (filler j)"
proof -
  assume "j < n"
  then have "replicate (Suc j) CHR ''x'' \<noteq> replicate (Suc n) CHR ''x''"
    by (metis length_replicate nat_neq_iff Suc_inject)
  then show ?thesis
    by (simp add: repeats_def filler_fields normalize_xs Let_def del: replicate_Suc)
qed

lemma filler_kept:
  "\<not> shouldSkipConversationEntry (filler n) (demo_entry # map filler [0..<n])"
proof -
  have lows: "toLowerCase (js_trim ''assistant'') = ''assistant''"
    "toLowerCase (js_trim ''cli:local'') = ''cli:local''"
    by (simp_all add: text_defs)
  have notpong: "\<not> startsWith (replicate (Suc n) CHR ''x'') ''pong''"
    by (simp add: startsWith_def)
  have notauto: "\<not> startsWith ''cli:local'' ''autonomous:''"
    by (simp add: startsWith_def)
  have none: "\<forall>prev \<in> set (demo_entry # map filler [0..<n]).
      \<not> repeats ''assistant'' ''cli:local'' (replicate (Suc n) CHR ''x'') (Some (2000 + n)) prev"
    using filler_not_repeating_user filler_not_repeating_filler by auto
  have "\<not> list_ex (repeats ''assistant'' ''cli:local'' (replicate (Suc n) CHR ''x'') (Some (2000 + n)))
      (drop (length (demo_entry # map filler [0..<n]) - 120) (demo_entry # map filler [0..<n]))"
    using none by (meson in_set_dropD list_ex_iff)
  then show ?thesis
    by (simp add: shouldSkipConversationEntry_def Let_def filler_fields lows normalize_xs notpong notauto
        del: replicate_Suc)
qed

lemma busy_entries: "rawEntries (busy n (snd demo_first)) = demo_entry # map filler [0..<n]"
proof (induction n)
  case 0
  have "addConversation demo_store ''user'' (Some ''hello there'') (Some ''cli:local'') [] ''s1'' ''u1'' 1000
     = (Some demo_entry, snd demo_first)"
    using demo_first_stored by (simp add: demo_first_def)
  from addConversation_stored [OF this] show ?case by (simp add: demo_store_def)
next
  case (Suc n)
  let ?call = "addConversation (busy n (snd demo_first)) ''assistant'' (Some (replicate (Suc n) CHR ''x''))
            (Some ''cli:local'') [] ''s1'' (replicate (Suc n) CHR ''r'') (2000 + n)"
  have ne: "js_trim (str_or_empty (Some (replicate (Suc n) CHR ''x''))) \<noteq> []"
    by (simp add: str_or_empty_def js_trim_xs del: replicate_Suc)
  have fe: "new_entry ''assistant'' (Some (replicate (Suc n) CHR ''x'')) (Some ''cli:local'') []
                ''s1'' (replicate (Suc n) CHR ''r'') (2000 + n) = filler n"
    by (simp add: filler_def)
  have "?call = (Some (filler n), snd ?call)"
    using filler_kept [of n] ne
    by (subst addConversation_cases) (simp add: Suc.IH fe del: replicate_Suc)
  from addConversation_stored [OF this] show ?case
    by (simp add: Suc.IH del: replicate_Suc)
qed

text \<open>
  C5 as stated fails. The first call stores the user's turn at time 1000. The
  conversation goes on with 120 assistant turns. At time 5000, four seconds after the
  first call, the same actor sends the same content from the same source, and the call
  stores it again: the first entry is no longer among the last 120 that are compared.
\<close>

theorem addConversation_stores_again:
  "fst demo_first = Some demo_entry \<and>
   (5000 :: nat) - 1000 < six_hours \<and>
   fst (addConversation (busy 120 (snd demo_first)) ''user'' (Some ''hello there'') (Some ''cli:local'')
          [] ''s1'' ''u2'' 5000)
     = Some (demo_entry\<lparr>raw_id := ''u2'', raw_createdAt := Some 5000\<rparr>)"
proof -
  let ?e2 = "demo_entry\<lparr>raw_id := ''u2'', raw_createdAt := Some 5000\<rparr>"
  have a: "fst demo_first = Some demo_entry" using demo_first_stored by (metis fst_conv)
  have b: "(5000 :: nat) - 1000 < six_hours" by (simp add: six_hours_def)
  have n: "new_entry ''user'' (Some ''hello there'') (Some ''cli:local'') [] ''s1'' ''u2'' 5000 = ?e2"
    by (simp add: new_entry_def demo_entry_def text_defs)
  have t: "js_trim (str_or_empty (Some ''hello there'')) \<noteq> []"
    by (simp add: text_defs)
  have len: "length (demo_entry # map filler [0..<120]) - 120 = 1" by simp
  have recent: "drop (length (demo_entry # map filler [0..<120]) - 120) (demo_entry # map filler [0..<120])
      = map filler [0..<120]"
    unfolding len by simp
  have other: "\<forall>prev \<in> set (map filler [0..<120]). \<not> repeats ''user'' src c ts prev" for src c ts
    by (auto simp add: repeats_def filler_fields toLowerCase_def toLowerCase_char_def)
  have k: "\<not> shouldSkipConversationEntry ?e2 (demo_entry # map filler [0..<120])"
    unfolding shouldSkipConversationEntry_def Let_def recent
    using other by (simp add: demo_entry_def text_defs list_ex_iff)
  have "addConversation (busy 120 (snd demo_first)) ''user'' (Some ''hello there'') (Some ''cli:local'')
          [] ''s1'' ''u2'' 5000
     = (Some ?e2, snd (addConversation (busy 120 (snd demo_first)) ''user'' (Some ''hello there'')
          (Some ''cli:local'') [] ''s1'' ''u2'' 5000))"
    using k t by (subst addConversation_cases) (simp add: busy_entries n)
  then have c: "fst (addConversation (busy 120 (snd demo_first)) ''user'' (Some ''hello there'')
          (Some ''cli:local'') [] ''s1'' ''u2'' 5000) = Some ?e2"
    by (metis fst_conv)
  show ?thesis by (intro conjI) (fact a b c)+
qed



section \<open>Properties of the knowledge index\<close>

lemma length_normalizeVector: "length (normalizeVector v) = length v"
  by (simp add: normalizeVector_def Let_def)

lemma length_embed_token: "length (embed_token v t) = length v"
  by (simp add: embed_token_def Let_def)

lemma length_foldl_embed_token: "length (foldl embed_token v ts) = length v"
  by (induction ts arbitrary: v) (simp_all add: length_embed_token)

lemma valid_array_length_nat: "valid_array_length d \<Longrightarrow> real (nat \<lfloor>d\<rfloor>) = d"
  by (simp add: valid_array_length_def)

lemma localEmbedText_valid:
  assumes "valid_array_length d" and "8 \<le> d"
  shows "\<exists>v. localEmbedText text d = Some v \<and> real (length v) = d"
proof -
  have m: "max 8 d = d" using assms(2) by simp
  show ?thesis
    using assms(1) valid_array_length_nat [OF assms(1)]
    by (simp add: localEmbedText_def m Let_def length_normalizeVector length_foldl_embed_token)
qed

lemma localEmbedText_throws:
  "\<not> valid_array_length (max 8 d) \<Longrightarrow> localEmbedText text d = None"
  by (simp add: localEmbedText_def)

lemma those_map:
  assumes "\<And>x. x \<in> set xs \<Longrightarrow> \<exists>y. f x = Some y \<and> P y"
  shows "\<exists>ys. those (map f xs) = Some ys \<and> length ys = length xs \<and> (\<forall>y \<in> set ys. P y)"
  using assms
proof (induction xs)
  case Nil
  then show ?case by simp
next
  case (Cons x xs)
  from Cons.prems [of x] obtain y where y: "f x = Some y" "P y" by auto
  from Cons.IH Cons.prems obtain ys where ys: "those (map f xs) = Some ys" "length ys = length xs"
    "\<forall>y \<in> set ys. P y"
    by auto
  show ?case using y ys by simp
qed

lemma embed_locally_valid:
  assumes "valid_array_length d" and "8 \<le> d"
  shows "\<exists>vs. embed_locally d texts = Some vs \<and> length vs = length texts \<and>
           (\<forall>v \<in> set vs. real (length v) = d)"
  unfolding embed_locally_def
  by (rule those_map) (rule localEmbedText_valid [OF assms])

lemma embed_batch_local:
  "\<not> vec_enabled (vector s) \<or> resolveEmbeddingProvider s env = Local \<Longrightarrow>
   embed_batch s env batch = embed_locally (vec_dims (vector s)) batch"
  by (auto simp add: embed_batch_def Let_def split: option.splits)

lemma batch_pairs_local:
  assumes loc: "\<not> vec_enabled (vector s) \<or> resolveEmbeddingProvider s env = Local"
    and valid: "valid_array_length (vec_dims (vector s))" and dims: "8 \<le> vec_dims (vector s)"
  shows "\<exists>ps. batch_pairs s env batch = Some ps \<and>
           (\<forall>tv \<in> set ps. real (length (snd tv)) = vec_dims (vector s))"
proof -
  from embed_locally_valid [OF valid dims, of batch] obtain vs where
    vs: "embed_locally (vec_dims (vector s)) batch = Some vs" "length vs = length batch"
      "\<forall>v \<in> set vs. real (length v) = vec_dims (vector s)"
    by auto
  let ?f = "\<lambda>(text, idx). map_option (Pair text)
              (if idx < length vs then Some (vs ! idx) else localEmbedText text 256)"
  have "\<exists>ps. those (map ?f (zip batch [0..<length batch])) = Some ps \<and>
          length ps = length (zip batch [0..<length batch]) \<and>
          (\<forall>tv \<in> set ps. real (length (snd tv)) = vec_dims (vector s))"
  proof (rule those_map)
    fix x assume x: "x \<in> set (zip batch [0..<length batch])"
    obtain t i where ti: "x = (t, i)" by (cases x)
    from x ti have "i < length batch" by (auto dest: set_zip_rightD)
    then have i: "i < length vs" by (simp add: vs(2))
    then have "real (length (vs ! i)) = vec_dims (vector s)" using vs(3) by simp
    then show "\<exists>y. ?f x = Some y \<and> real (length (snd y)) = vec_dims (vector s)"
      using i by (simp add: ti)
  qed
  then obtain ps where ps: "those (map ?f (zip batch [0..<length batch])) = Some ps"
    "\<forall>tv \<in> set ps. real (length (snd tv)) = vec_dims (vector s)"
    by blast
  have eq: "batch_pairs s env batch = those (map ?f (zip batch [0..<length batch]))"
    by (simp add: batch_pairs_def embed_batch_local [OF loc] vs(1))
  show ?thesis unfolding eq using ps by blast
qed

lemma embed_batches_local:
  assumes loc: "\<not> vec_enabled (vector s) \<or> resolveEmbeddingProvider s env = Local"
    and valid: "valid_array_length (vec_dims (vector s))" and dims: "8 \<le> vec_dims (vector s)"
  shows "snd (embed_batches s env batches) \<and>
         (\<forall>tv \<in> set (fst (embed_batches s env batches)). real (length (snd tv)) = vec_dims (vector s))"
proof (induction batches)
  case Nil
  then show ?case by simp
next
  case (Cons b bs)
  from batch_pairs_local [OF loc valid dims, of b] obtain ps where
    "batch_pairs s env b = Some ps" "\<forall>tv \<in> set ps. real (length (snd tv)) = vec_dims (vector s)"
    by auto
  with Cons show ?case by auto
qed

lemma fill_results_lengths:
  assumes "\<forall>t v. cached t = Some v \<longrightarrow> real (length v) = d"
    and "\<forall>tv \<in> set embedded. real (length (snd tv)) = d"
    and "valid_array_length d" and "8 \<le> d"
  shows "\<exists>rs. fill_results cached d texts embedded = Some rs \<and> (\<forall>v \<in> set rs. real (length v) = d)"
  using assms(2)
proof (induction texts arbitrary: embedded)
  case Nil
  then show ?case by simp
next
  case (Cons t ts)
  show ?case
  proof (cases "cached t")
    case (Some v)
    from Cons.IH [OF Cons.prems] obtain rs where
      "fill_results cached d ts embedded = Some rs" "\<forall>v \<in> set rs. real (length v) = d"
      by auto
    with Some assms(1) show ?thesis by simp
  next
    case None
    show ?thesis
    proof (cases embedded)
      case Nil
      from localEmbedText_valid [OF assms(3,4), of t] obtain v where
        v: "localEmbedText t d = Some v" "real (length v) = d" by auto
      from Cons.IH [of "[]"] obtain rs where
        "fill_results cached d ts [] = Some rs" "\<forall>v \<in> set rs. real (length v) = d"
        by auto
      with None Nil v show ?thesis by simp
    next
      case (Cons tv others)
      obtain t' v' where tv: "tv = (t', v')" by (cases tv)
      from Cons.prems Cons have o: "\<forall>tv \<in> set others. real (length (snd tv)) = d"
        and v': "real (length v') = d"
        by (simp_all add: tv)
      from Cons.IH [OF o] obtain rs where
        "fill_results cached d ts others = Some rs" "\<forall>v \<in> set rs. real (length v) = d"
        by auto
      with None Cons tv v' show ?thesis by simp
    qed
  qed
qed

lemma embedTexts_local:
  assumes loc: "\<not> vec_enabled (vector s) \<or> resolveEmbeddingProvider s env = Local"
    and valid: "valid_array_length (vec_dims (vector s))" and dims: "8 \<le> vec_dims (vector s)"
    and cache: "\<forall>kv \<in> set (embeddingCache s).
                  snd kv = [] \<or> real (length (snd kv)) = vec_dims (vector s)"
  shows "\<exists>vs. fst (embedTexts s env texts c) = Some vs \<and>
           (\<forall>v \<in> set vs. real (length v) = vec_dims (vector s))"
proof -
  let ?cached = "\<lambda>text. if c then (case map_of (embeddingCache s) (hashText text) of
                                            Some v \<Rightarrow> if v = [] then None else Some v
                                          | None \<Rightarrow> None)
                             else None"
  let ?batches = "chop (max 1 (vec_batchSize (vector s))) (filter (\<lambda>text. ?cached text = None) texts)"
  have a: "\<forall>t v. ?cached t = Some v \<longrightarrow> real (length v) = vec_dims (vector s)"
    using cache by (auto split: option.splits if_splits dest!: map_of_SomeD)
  note b = embed_batches_local [OF loc valid dims, of ?batches]
  from fill_results_lengths [OF a b [THEN conjunct2] valid dims, of texts]
  show ?thesis
    using b [THEN conjunct1] by (simp add: embedTexts_def Let_def split_beta)
qed

lemma prev_vectors_in_rows:
  "prev_vectors f h = Some v \<Longrightarrow> \<exists>r \<in> set (case f of None \<Rightarrow> [] | Some rows \<Rightarrow> rows). row_vector r = v"
  by (cases f) (force simp add: prev_vectors_def dest!: map_of_SomeD)+

lemma file_chunks_found:
  assumes prev: "\<forall>r \<in> set (case indexFile s of None \<Rightarrow> [] | Some rows \<Rightarrow> rows).
             row_vector r = [] \<or> real (length (row_vector r)) = vec_dims (vector s)"
    and cache: "\<forall>kv \<in> set (embeddingCache s).
             snd kv = [] \<or> real (length (snd kv)) = vec_dims (vector s)"
  shows "\<forall>cb \<in> set (file_chunks s reason filePath uuid content).
           snd cb \<longrightarrow> real (length (chunk_vector (fst cb))) = vec_dims (vector s)"
proof -
  have p: "\<And>h v. prev_vectors (indexFile s) h = Some v \<Longrightarrow> v \<noteq> [] \<Longrightarrow>
             real (length v) = vec_dims (vector s)"
    using prev prev_vectors_in_rows by blast
  have c: "\<And>h v. map_of (embeddingCache s) h = Some v \<Longrightarrow> v \<noteq> [] \<Longrightarrow>
             real (length v) = vec_dims (vector s)"
    using cache by (auto dest!: map_of_SomeD)
  show ?thesis
    using p c by (auto simp add: file_chunks_def Let_def split: option.splits if_splits)
qed

lemma assign_vectors_lengths:
  assumes "\<forall>cb \<in> set found. snd cb \<longrightarrow> real (length (chunk_vector (fst cb))) = d"
    and "\<forall>v \<in> set vs. real (length v) = d"
    and "valid_array_length d" and "8 \<le> d"
  shows "\<exists>cs. assign_vectors d found vs = Some cs \<and>
           (\<forall>c \<in> set cs. real (length (chunk_vector c)) = d)"
  using assms
proof (induction d found vs rule: assign_vectors.induct)
  case (1 dims vs)
  then show ?case by simp
next
  case (2 dims c rest vs)
  then show ?case by auto
next
  case (3 dims c rest)
  from localEmbedText_valid [OF "3.prems"(3,4), of "chunk_text c"] obtain v where
    v: "localEmbedText (chunk_text c) dims = Some v" "real (length v) = dims" by auto
  from "3.IH" [OF v(1)] "3.prems" obtain cs where
    "assign_vectors dims rest [] = Some cs" "\<forall>c \<in> set cs. real (length (chunk_vector c)) = dims"
    by auto
  with v show ?case by simp
next
  case (4 dims c rest v vs)
  then show ?case by auto
qed

lemma sync_local:
  assumes nc: "\<not> closed s"
    and loc: "\<not> vec_enabled (vector s) \<or> resolveEmbeddingProvider s env = Local"
    and valid: "valid_array_length (vec_dims (vector s))" and dims: "8 \<le> vec_dims (vector s)"
    and prev: "\<forall>r \<in> set (case indexFile s of None \<Rightarrow> [] | Some rows \<Rightarrow> rows).
             row_vector r = [] \<or> real (length (row_vector r)) = vec_dims (vector s)"
    and cache: "\<forall>kv \<in> set (embeddingCache s).
             snd kv = [] \<or> real (length (snd kv)) = vec_dims (vector s)"
  shows "\<forall>c \<in> set (knowledgeChunks (syncKnowledgeIndex s env files reason uuid now)).
           real (length (chunk_vector c)) = vec_dims (vector s)"
    and "lastIndexError (syncKnowledgeIndex s env files reason uuid now) = None"
    and "indexFile (syncKnowledgeIndex s env files reason uuid now)
           = Some (map index_row_of (knowledgeChunks (syncKnowledgeIndex s env files reason uuid now)))"
proof -
  let ?found = "concat (map (\<lambda>filePath.
                      file_chunks s reason filePath uuid (readTextOrDefault (markdownFiles s) filePath)) files)"
  let ?missing = "map (\<lambda>(c, b). chunk_text c) (filter (\<lambda>(c, b). \<not> b) ?found)"
  let ?r = "if ?missing \<noteq> [] then embedTexts s env ?missing True else (Some [], s)"
  have f: "\<forall>cb \<in> set ?found. snd cb \<longrightarrow> real (length (chunk_vector (fst cb))) = vec_dims (vector s)"
    using file_chunks_found [OF prev cache] by auto
  from embedTexts_local [OF loc valid dims cache, of ?missing True]
  obtain vs where vs: "fst ?r = Some vs" "\<forall>v \<in> set vs. real (length v) = vec_dims (vector s)"
    by (cases "?missing \<noteq> []") auto
  from assign_vectors_lengths [OF f vs(2) valid dims] obtain cs where
    cs: "assign_vectors (vec_dims (vector s)) ?found vs = Some cs"
      "\<forall>c \<in> set cs. real (length (chunk_vector c)) = vec_dims (vector s)"
    by auto
  have k: "syncKnowledgeIndex s env files reason uuid now =
      (snd ?r)\<lparr>knowledgeChunks := cs,
                  bm25 := collectTokenStats cs,
                  indexDirty := False,
                  lastIndexedAt := Some now,
                  lastIndexError := None,
                  indexFile := Some (map index_row_of cs)\<rparr>"
    using nc vs(1) cs(1) by (simp add: syncKnowledgeIndex_def Let_def split_beta)
  show "\<forall>c \<in> set (knowledgeChunks (syncKnowledgeIndex s env files reason uuid now)).
           real (length (chunk_vector c)) = vec_dims (vector s)"
    using cs(2) by (simp add: k)
  show "lastIndexError (syncKnowledgeIndex s env files reason uuid now) = None"
    by (simp add: k)
  show "indexFile (syncKnowledgeIndex s env files reason uuid now)
           = Some (map index_row_of (knowledgeChunks (syncKnowledgeIndex s env files reason uuid now)))"
    by (simp add: k)
qed

lemma new_vector_config_dims: "32 \<le> vec_dims (new_vector_config en p m d b c)"
  by (simp add: new_vector_config_def)

lemma tokenize_a: "tokenize ''a'' = []"
  by code_simp

lemma split_a_main:
  "splitMarkdownIntoChunks ''a'' 1400 180 =
     [\<lparr>startLine = 1, endLine = 1, piece_text = ''a'', piece_hash = hashText ''a''\<rparr>]"
  by (simp add: splitMarkdownIntoChunks_def split_step_def flush_def newline_def Let_def join_def
      js_trim_def js_trimEnd_def js_trimStart_def is_js_space_def)

lemma found_a:
  "indexFile s = None \<Longrightarrow> embeddingCache s = [] \<Longrightarrow> memoryMainPath s = ''/m/MEMORY.md'' \<Longrightarrow>
   file_chunks s reason ''/m/MEMORY.md'' uuid ''a'' =
     [(\<lparr>chunk_id = uuid 0, chunk_hash = hashText ''a'', chunk_text = ''a'',
        chunk_path = ''/m/MEMORY.md'', chunk_sourceType = Memory_main,
        chunk_startLine = 1, chunk_endLine = 1, chunk_vector = [], chunk_reason = reason\<rparr>, False)]"
  by (simp add: file_chunks_def classifyPathSource_def split_a_main prev_vectors_def Let_def
      js_trim_def js_trimStart_def js_trimEnd_def is_js_space_def)

lemma chop_one: "0 < n \<Longrightarrow> chop n [x] = [[x]]"
  by (simp add: chop.simps)

lemma remote_vectors:
  "fst (embedTexts demo_remote_store demo_remote_env [''a''] True) = Some [[1, 0, 0]]"
  by (simp add: embedTexts_def batch_pairs_def embed_batch_def embedWithOpenAi_def
      resolveEmbeddingProvider_def
      demo_remote_store_def demo_notes_store_def demo_store_def demo_remote_env_def key_present_def
      js_trim_def js_trimStart_def js_trimEnd_def is_js_space_def normalizeVector_def Let_def
      chop_one max_def split_beta)

lemma valid_32: "valid_array_length 32"
  by (simp add: valid_array_length_def)

lemma local_texts:
  "map chunk_text (knowledgeChunks (syncKnowledgeIndex demo_notes_store demo_local_env
      [''/m/MEMORY.md''] ''manual'' demo_uuid 7000)) = [''a'']"
proof -
  have s: "indexFile demo_notes_store = None" "embeddingCache demo_notes_store = []"
    "memoryMainPath demo_notes_store = ''/m/MEMORY.md''" "\<not> closed demo_notes_store"
    "readTextOrDefault (markdownFiles demo_notes_store) ''/m/MEMORY.md'' = ''a''"
    "vec_dims (vector demo_notes_store) = 32"
    "resolveEmbeddingProvider demo_notes_store demo_local_env = Local"
    by (simp_all add: demo_notes_store_def demo_store_def readTextOrDefault_def
        resolveEmbeddingProvider_def)
  from embedTexts_local [of demo_notes_store demo_local_env "[''a'']" True]
  obtain vs where vs: "fst (embedTexts demo_notes_store demo_local_env [''a''] True) = Some vs"
    using s valid_32 by auto
  from localEmbedText_valid [OF valid_32, of "''a''"] obtain v0 where
    v0: "localEmbedText ''a'' 32 = Some v0" by auto
  show ?thesis
    by (cases vs)
      (simp_all add: syncKnowledgeIndex_def s found_a [OF s(1) s(2) s(3)] Let_def split_beta vs v0)
qed

text \<open>
  C9, as the code has it. Let the vectors come from the local embedding (vector search
  off, or the provider resolving to local), let \<open>vector.dims\<close> be a whole number of at
  most \<open>2^32 - 1\<close>, and let the vectors taken over from the previous index file and from
  the embedding cache be empty or of that length. Then \<open>syncKnowledgeIndex\<close> records no
  error, and every chunk vector of the in-memory index, and every row of the index file
  written from it, has exactly \<open>vector.dims\<close> entries, as has the local embedding of any
  text. The constructor never sets \<open>vector.dims\<close> below 32. For a \<open>dims\<close> with which
  \<open>max(8, dims)\<close> is not a whole number of at most \<open>2^32 - 1\<close>, \<open>localEmbedText\<close> throws.
\<close>

theorem local_vectors_have_dims:
  assumes "\<not> closed s"
    and "\<not> vec_enabled (vector s) \<or> resolveEmbeddingProvider s env = Local"
    and "valid_array_length (vec_dims (vector s))"
    and "8 \<le> vec_dims (vector s)"
    and "\<forall>r \<in> set (case indexFile s of None \<Rightarrow> [] | Some rows \<Rightarrow> rows).
             row_vector r = [] \<or> real (length (row_vector r)) = vec_dims (vector s)"
    and "\<forall>kv \<in> set (embeddingCache s).
             snd kv = [] \<or> real (length (snd kv)) = vec_dims (vector s)"
  shows "(\<forall>c \<in> set (knowledgeChunks (syncKnowledgeIndex s env files reason uuid now)).
            real (length (chunk_vector c)) = vec_dims (vector s)) \<and>
         lastIndexError (syncKnowledgeIndex s env files reason uuid now) = None \<and>
         indexFile (syncKnowledgeIndex s env files reason uuid now)
           = Some (map index_row_of (knowledgeChunks (syncKnowledgeIndex s env files reason uuid now))) \<and>
         (\<forall>r \<in> set (map index_row_of (knowledgeChunks (syncKnowledgeIndex s env files reason uuid now))).
            real (length (row_vector r)) = vec_dims (vector s)) \<and>
         map_option (\<lambda>v. real (length v)) (localEmbedText text (vec_dims (vector s)))
           = Some (vec_dims (vector s)) \<and>
         32 \<le> vec_dims (new_vector_config en p m d b c) \<and>
         (\<not> valid_array_length (max 8 x) \<longrightarrow> localEmbedText text x = None)"
proof -
  note l = sync_local [OF assms, of files reason uuid now]
  have r: "\<forall>r \<in> set (map index_row_of (knowledgeChunks (syncKnowledgeIndex s env files reason uuid now))).
            real (length (row_vector r)) = vec_dims (vector s)"
    using l(1) by (simp add: index_row_of_def)
  have e: "map_option (\<lambda>v. real (length v)) (localEmbedText text (vec_dims (vector s)))
           = Some (vec_dims (vector s))"
    using localEmbedText_valid [OF assms(3,4), of "text"] by auto
  have t: "\<not> valid_array_length (max 8 x) \<longrightarrow> localEmbedText text x = None"
    using localEmbedText_throws [of x "text"] by blast
  show ?thesis
    by (intro conjI) (fact l r e t new_vector_config_dims)+
qed

theorem local_vectors_have_dims_witness:
  "\<not> closed demo_notes_store \<and>
   resolveEmbeddingProvider demo_notes_store demo_local_env = Local \<and>
   valid_array_length (vec_dims (vector demo_notes_store)) \<and>
   8 \<le> vec_dims (vector demo_notes_store) \<and>
   indexFile demo_notes_store = None \<and>
   embeddingCache demo_notes_store = [] \<and>
   map chunk_text (knowledgeChunks (syncKnowledgeIndex demo_notes_store demo_local_env
      [''/m/MEMORY.md''] ''manual'' demo_uuid 7000)) = [''a''] \<and>
   map (\<lambda>c. length (chunk_vector c)) (knowledgeChunks (syncKnowledgeIndex demo_notes_store demo_local_env
      [''/m/MEMORY.md''] ''manual'' demo_uuid 7000)) = [32] \<and>
   map_option (map (\<lambda>r. length (row_vector r))) (indexFile (syncKnowledgeIndex demo_notes_store
      demo_local_env [''/m/MEMORY.md''] ''manual'' demo_uuid 7000)) = Some [32] \<and>
   lastIndexError (syncKnowledgeIndex demo_notes_store demo_local_env
      [''/m/MEMORY.md''] ''manual'' demo_uuid 7000) = None \<and>
   vec_dims (new_vector_config True Local ''m'' (Some (129 / 2)) None True) = 129 / 2 \<and>
   \<not> valid_array_length (max 8 (129 / 2)) \<and>
   localEmbedText ''a'' (129 / 2) = None"
proof -
  let ?s' = "syncKnowledgeIndex demo_notes_store demo_local_env [''/m/MEMORY.md''] ''manual'' demo_uuid 7000"
  have a: "\<not> closed demo_notes_store" by (simp add: demo_notes_store_def demo_store_def)
  have b: "resolveEmbeddingProvider demo_notes_store demo_local_env = Local"
    by (simp add: resolveEmbeddingProvider_def demo_notes_store_def demo_store_def)
  have dims: "vec_dims (vector demo_notes_store) = 32" by (simp add: demo_notes_store_def demo_store_def)
  have v: "valid_array_length (vec_dims (vector demo_notes_store))"
    by (simp add: dims valid_32)
  have c: "8 \<le> vec_dims (vector demo_notes_store)" by (simp add: dims)
  have d: "indexFile demo_notes_store = None" by (simp add: demo_notes_store_def demo_store_def)
  have e: "embeddingCache demo_notes_store = []" by (simp add: demo_notes_store_def demo_store_def)
  have p: "\<forall>r \<in> set (case indexFile demo_notes_store of None \<Rightarrow> [] | Some rows \<Rightarrow> rows).
             row_vector r = [] \<or> real (length (row_vector r)) = vec_dims (vector demo_notes_store)"
    by (simp add: d)
  have q: "\<forall>kv \<in> set (embeddingCache demo_notes_store).
             snd kv = [] \<or> real (length (snd kv)) = vec_dims (vector demo_notes_store)"
    by (simp add: e)
  have nv: "\<not> valid_array_length (max 8 (129 / 2))"
    by (simp add: valid_array_length_def)
  have cfg: "vec_dims (new_vector_config True Local ''m'' (Some (129 / 2)) None True) = 129 / 2"
    by (simp add: new_vector_config_def)
  note t = local_vectors_have_dims [of demo_notes_store demo_local_env "[''/m/MEMORY.md'']"
      "''manual''" demo_uuid 7000 "''a''" True Local "''m''" None None True "129 / 2",
      OF a disjI2 [OF b] v c p q]
  have all: "\<forall>c \<in> set (knowledgeChunks ?s'). length (chunk_vector c) = 32"
    using t [THEN conjunct1] by (simp add: dims)
  have err: "lastIndexError ?s' = None"
    by (rule t [THEN conjunct2, THEN conjunct1])
  have idx: "indexFile ?s' = Some (map index_row_of (knowledgeChunks ?s'))"
    by (rule t [THEN conjunct2, THEN conjunct2, THEN conjunct1])
  have thr: "localEmbedText ''a'' (129 / 2) = None"
    using t [THEN conjunct2, THEN conjunct2, THEN conjunct2, THEN conjunct2, THEN conjunct2,
        THEN conjunct2] nv by blast
  from local_texts obtain k where k: "knowledgeChunks ?s' = [k]"
    by (cases "knowledgeChunks ?s'") auto
  have f: "map (\<lambda>c. length (chunk_vector c)) (knowledgeChunks ?s') = [32]"
    using all by (simp add: k)
  have g: "map_option (map (\<lambda>r. length (row_vector r))) (indexFile ?s') = Some [32]"
    using all by (simp add: idx k index_row_of_def)
  show ?thesis by (intro conjI) (fact a b v c d e local_texts f g err cfg nv thr)+
qed

text \<open>
  C9, as the spec words it, fails for a remote provider: the vector the provider returns
  is normalized and kept with the length it came with. Here \<open>vector.dims\<close> is 32 and the
  provider answers with three numbers.
\<close>

theorem remote_vector_keeps_its_length:
  "vec_dims (vector demo_remote_store) = 32 \<and>
   map (\<lambda>c. length (chunk_vector c))
     (knowledgeChunks (syncKnowledgeIndex demo_remote_store demo_remote_env [''/m/MEMORY.md'']
                         ''manual'' demo_uuid 7000)) = [3] \<and>
   map_option (map (\<lambda>r. length (row_vector r)))
     (indexFile (syncKnowledgeIndex demo_remote_store demo_remote_env [''/m/MEMORY.md'']
                         ''manual'' demo_uuid 7000)) = Some [3]"
proof -
  have s: "indexFile demo_remote_store = None" "embeddingCache demo_remote_store = []"
    "memoryMainPath demo_remote_store = ''/m/MEMORY.md''" "\<not> closed demo_remote_store"
    "readTextOrDefault (markdownFiles demo_remote_store) ''/m/MEMORY.md'' = ''a''"
    "vec_dims (vector demo_remote_store) = 32"
    by (simp_all add: demo_remote_store_def demo_notes_store_def demo_store_def readTextOrDefault_def)
  have k: "syncKnowledgeIndex demo_remote_store demo_remote_env [''/m/MEMORY.md'']
                         ''manual'' demo_uuid 7000
      = (let cs = [\<lparr>chunk_id = demo_uuid 0, chunk_hash = hashText ''a'', chunk_text = ''a'',
                     chunk_path = ''/m/MEMORY.md'', chunk_sourceType = Memory_main,
                     chunk_startLine = 1, chunk_endLine = 1, chunk_vector = [1, 0, 0],
                     chunk_reason = ''manual''\<rparr>]
         in (snd (embedTexts demo_remote_store demo_remote_env [''a''] True))
              \<lparr>knowledgeChunks := cs, bm25 := collectTokenStats cs, indexDirty := False,
               lastIndexedAt := Some 7000, lastIndexError := None,
               indexFile := Some (map index_row_of cs)\<rparr>)"
    by (simp add: syncKnowledgeIndex_def s found_a [OF s(1) s(2) s(3)] Let_def split_beta remote_vectors)
  show ?thesis
    by (simp add: s(6) k Let_def index_row_of_def)
qed


section \<open>Properties of the runs of the lane queue\<close>

lemma lane_emit_fields [simp]:
  "lanes (lane_emit q e) = lanes q"
  "lane_objects (lane_emit q e) = lane_objects q"
  "submitted (lane_emit q e) = submitted q"
  "begun (lane_emit q e) = begun q"
  "settled (lane_emit q e) = settled q"
  "totalDepth (lane_emit q e) = totalDepth q"
  "maxDepth (lane_emit q e) = maxDepth q"
  by (simp_all add: lane_emit_def)

lemma jobs_of_snoc [simp]:
  "jobs_of k (xs @ [(k', x)]) = jobs_of k xs @ (if k' = k then [x] else [])"
  by (simp add: jobs_of_def)

lemma jobs_of_Nil [simp]: "jobs_of k [] = []"
  by (simp add: jobs_of_def)

lemma new_lane_wf: "lane_wf (new_LaneQueue m ev)"
  by (simp add: lane_wf_def new_LaneQueue_def)

lemma new_lane_hist: "lane_hist (new_LaneQueue m ev)"
  by (simp add: lane_hist_def new_LaneQueue_def waiting_def in_flight_def)

lemma wf_map_of:
  "lane_wf q \<Longrightarrow> (map_of (lanes q) k = Some r) = ((k, r) \<in> set (lanes q))"
  by (simp add: lane_wf_def)

lemma wf_registered:
  "lane_wf q \<Longrightarrow> (k, r) \<in> set (lanes q) \<Longrightarrow>
     r < length (lane_objects q) \<and> lane_key (lane_objects q ! r) = k \<and>
     promise (lane_objects q ! r) \<noteq> []"
  by (force simp add: lane_wf_def)

lemma wf_object:
  "lane_wf q \<Longrightarrow> r < length (lane_objects q) \<Longrightarrow>
     active (lane_objects q ! r) = (if head_running (lane_objects q ! r) then 1 else 0) \<and>
     depth (lane_objects q ! r) + active (lane_objects q ! r)
       = length (promise (lane_objects q ! r)) \<and>
     (promise (lane_objects q ! r) \<noteq> [] \<longrightarrow>
        (lane_key (lane_objects q ! r), r) \<in> set (lanes q))"
  unfolding lane_wf_def by blast

text \<open>The two ways an accepted call changes the queue.\<close>

lemma enqueue_old:
  assumes "K = (if k = [] then ''default'' else k)"
    and "totalDepth q < maxDepth q"
    and "map_of (lanes q) K = Some r"
  shows "lanes (snd (enqueue q k (Some j) now)) = lanes q"
    and "lane_objects (snd (enqueue q k (Some j) now)) =
           (lane_objects q)[r := (lane_objects q ! r)\<lparr>depth := depth (lane_objects q ! r) + 1,
              lane_updatedAt := now, promise := promise (lane_objects q ! r) @ [j]\<rparr>]"
    and "submitted (snd (enqueue q k (Some j) now)) = submitted q @ [(K, j)]"
    and "begun (snd (enqueue q k (Some j) now)) = begun q"
    and "settled (snd (enqueue q k (Some j) now)) = settled q"
  using assms by (simp_all add: enqueue_def Let_def)

lemma enqueue_new:
  assumes "K = (if k = [] then ''default'' else k)"
    and "totalDepth q < maxDepth q"
    and "map_of (lanes q) K = None"
  shows "lanes (snd (enqueue q k (Some j) now)) = lanes q @ [(K, length (lane_objects q))]"
    and "lane_objects (snd (enqueue q k (Some j) now)) =
           lane_objects q @ [\<lparr>lane_key = K, depth = 1, active = 0,
              lane_updatedAt = now, promise = [j], head_running = False\<rparr>]"
    and "submitted (snd (enqueue q k (Some j) now)) = submitted q @ [(K, j)]"
    and "begun (snd (enqueue q k (Some j) now)) = begun q"
    and "settled (snd (enqueue q k (Some j) now)) = settled q"
  using assms by (simp_all add: enqueue_def Let_def)

lemma enqueue_refused:
  "fn = None \<or> maxDepth q \<le> totalDepth q \<Longrightarrow> snd (enqueue q k fn now) = q"
  by (auto simp add: enqueue_def split: option.splits)

lemma enqueue_wf:
  assumes wf: "lane_wf q"
  shows "lane_wf (snd (enqueue q k fn now))"
proof (cases "fn = None \<or> maxDepth q \<le> totalDepth q")
  case True
  then show ?thesis using wf by (simp add: enqueue_refused)
next
  case False
  then obtain j where fn: "fn = Some j" and lt: "totalDepth q < maxDepth q" by auto
  define K where "K = (if k = [] then ''default'' else k)"
  show ?thesis
  proof (cases "map_of (lanes q) K")
    case None
    then have notin: "\<forall>r. (K, r) \<notin> set (lanes q)"
      by (metis weak_map_of_SomeI option.distinct(1))
    then have notin': "K \<notin> fst ` set (lanes q)" by force
    show ?thesis
      unfolding fn lane_wf_def enqueue_new [OF K_def lt None]
      using wf notin notin'
      by (auto simp add: lane_wf_def nth_append less_Suc_eq)
  next
    case (Some r)
    then have mem: "(K, r) \<in> set (lanes q)" by (rule map_of_SomeD)
    note reg = wf_registered [OF wf mem]
    show ?thesis
      unfolding fn lane_wf_def enqueue_old [OF K_def lt Some]
      using wf reg mem
      by (auto simp add: lane_wf_def nth_list_update)
  qed
qed


lemma run_start_shape:
  assumes "run_start q r now = Some q'"
  shows "r < length (lane_objects q)"
    and "promise (lane_objects q ! r) \<noteq> []"
    and "\<not> head_running (lane_objects q ! r)"
    and "lanes q' = lanes q"
    and "lane_objects q' = (lane_objects q)[r := (lane_objects q ! r)\<lparr>
            depth := depth (lane_objects q ! r) - 1, active := active (lane_objects q ! r) + 1,
            lane_updatedAt := now, head_running := True\<rparr>]"
    and "submitted q' = submitted q"
    and "begun q' = begun q @ [(lane_key (lane_objects q ! r), hd (promise (lane_objects q ! r)))]"
    and "settled q' = settled q"
    and "totalDepth q' = totalDepth q - 1"
  using assms
  by (auto simp add: run_start_def Let_def split: if_splits list.splits)

lemma run_finally_shape:
  assumes "run_finally q r res now = Some q'"
  shows "r < length (lane_objects q)"
    and "promise (lane_objects q ! r) \<noteq> []"
    and "head_running (lane_objects q ! r)"
    and "lanes q' = (if depth (lane_objects q ! r) = 0 \<and> active (lane_objects q ! r) - 1 = 0
                     then filter (\<lambda>(k, x). k \<noteq> lane_key (lane_objects q ! r)) (lanes q)
                     else lanes q)"
    and "lane_objects q' = (lane_objects q)[r := (lane_objects q ! r)\<lparr>
            active := active (lane_objects q ! r) - 1,
            lane_updatedAt := now, promise := tl (promise (lane_objects q ! r)),
            head_running := False\<rparr>]"
    and "submitted q' = submitted q"
    and "begun q' = begun q"
    and "settled q' = settled q @
           [(lane_key (lane_objects q ! r), hd (promise (lane_objects q ! r)), res)]"
    and "totalDepth q' = totalDepth q"
  using assms
  by (auto simp add: run_finally_def Let_def split: if_splits list.splits)

lemma lane_wfI:
  assumes "distinct (map fst (lanes q))"
    and "\<And>k r. (k, r) \<in> set (lanes q) \<Longrightarrow> r < length (lane_objects q) \<and>
          lane_key (lane_objects q ! r) = k \<and> promise (lane_objects q ! r) \<noteq> []"
    and "\<And>r. r < length (lane_objects q) \<Longrightarrow>
          active (lane_objects q ! r) = (if head_running (lane_objects q ! r) then 1 else 0) \<and>
          depth (lane_objects q ! r) + active (lane_objects q ! r)
            = length (promise (lane_objects q ! r)) \<and>
          (promise (lane_objects q ! r) \<noteq> [] \<longrightarrow>
             (lane_key (lane_objects q ! r), r) \<in> set (lanes q))"
  shows "lane_wf q"
proof -
  have a: "\<forall>e \<in> set (lanes q). snd e < length (lane_objects q) \<and>
          lane_key (lane_objects q ! snd e) = fst e \<and> promise (lane_objects q ! snd e) \<noteq> []"
    using assms(2) by (metis prod.collapse)
  have b: "\<forall>r < length (lane_objects q).
          active (lane_objects q ! r) = (if head_running (lane_objects q ! r) then 1 else 0) \<and>
          depth (lane_objects q ! r) + active (lane_objects q ! r)
            = length (promise (lane_objects q ! r)) \<and>
          (promise (lane_objects q ! r) \<noteq> [] \<longrightarrow>
             (lane_key (lane_objects q ! r), r) \<in> set (lanes q))"
    using assms(3) by blast
  show ?thesis unfolding lane_wf_def using assms(1) a b by blast
qed

lemma wf_distinct: "lane_wf q \<Longrightarrow> distinct (map fst (lanes q))"
  by (simp add: lane_wf_def)

lemma run_start_wf:
  assumes wf: "lane_wf q" and st: "run_start q r now = Some q'"
  shows "lane_wf q'"
proof (rule lane_wfI)
  note sh = run_start_shape [OF st]
  from wf_object [OF wf sh(1)] sh(2) have mem: "(lane_key (lane_objects q ! r), r) \<in> set (lanes q)"
    by simp
  from wf_object [OF wf sh(1)] sh(3) have cnt: "active (lane_objects q ! r) = 0"
    "depth (lane_objects q ! r) = length (promise (lane_objects q ! r))"
    by simp_all
  show "distinct (map fst (lanes q'))" using wf_distinct [OF wf] by (simp add: sh(4))
  show "r' < length (lane_objects q') \<and>
          lane_key (lane_objects q' ! r') = k \<and> promise (lane_objects q' ! r') \<noteq> []"
    if "(k, r') \<in> set (lanes q')" for k r'
    using wf_registered [OF wf, of k r'] that sh(1)
    by (cases "r' = r") (simp_all add: sh(4) sh(5))
  show "active (lane_objects q' ! r') = (if head_running (lane_objects q' ! r') then 1 else 0) \<and>
          depth (lane_objects q' ! r') + active (lane_objects q' ! r')
            = length (promise (lane_objects q' ! r')) \<and>
          (promise (lane_objects q' ! r') \<noteq> [] \<longrightarrow>
             (lane_key (lane_objects q' ! r'), r') \<in> set (lanes q'))"
    if "r' < length (lane_objects q')" for r'
  proof (cases "r' = r")
    case True
    then show ?thesis using sh(1) sh(2) cnt mem by (simp add: sh(4) sh(5))
  next
    case False
    then show ?thesis using wf_object [OF wf, of r'] that by (simp add: sh(4) sh(5))
  qed
qed

lemma run_finally_wf:
  assumes wf: "lane_wf q" and st: "run_finally q r res now = Some q'"
  shows "lane_wf q'"
proof (rule lane_wfI)
  note sh = run_finally_shape [OF st]
  let ?l = "lane_objects q ! r"
  from wf_object [OF wf sh(1)] sh(2) have mem: "(lane_key ?l, r) \<in> set (lanes q)"
    by simp
  from wf_object [OF wf sh(1)] sh(3) have cnt: "active ?l = 1"
    "depth ?l + 1 = length (promise ?l)"
    by simp_all
  have uniq: "x = r" if "(lane_key ?l, x) \<in> set (lanes q)" for x
    using wf_distinct [OF wf] mem that by (metis eq_key_imp_eq_value)
  have tl: "(tl (promise ?l) = []) = (depth ?l = 0)" "length (tl (promise ?l)) = depth ?l"
    using cnt(2) by (cases "promise ?l"; simp)+
  have sub: "set (lanes q') \<subseteq> set (lanes q)" by (auto simp add: sh(4))
  have kept: "(k, x) \<in> set (lanes q')" if "(k, x) \<in> set (lanes q)" "k \<noteq> lane_key ?l" for k x
    using that by (simp add: sh(4))
  have kept': "(k, x) \<in> set (lanes q')" if "(k, x) \<in> set (lanes q)" "depth ?l \<noteq> 0" for k x
    using that by (simp add: sh(4))
  have gone: "(lane_key ?l, x) \<notin> set (lanes q')" if "depth ?l = 0" for x
    using that cnt by (auto simp add: sh(4))
  show "distinct (map fst (lanes q'))"
    using wf_distinct [OF wf] by (simp add: sh(4) distinct_map_filter)
  show "r' < length (lane_objects q') \<and>
          lane_key (lane_objects q' ! r') = k \<and> promise (lane_objects q' ! r') \<noteq> []"
    if m: "(k, r') \<in> set (lanes q')" for k r'
  proof -
    from m sub have m': "(k, r') \<in> set (lanes q)" by blast
    note reg = wf_registered [OF wf m']
    show ?thesis
    proof (cases "r' = r")
      case True
      with reg have "k = lane_key ?l" by simp
      with m gone have "depth ?l \<noteq> 0" by blast
      with tl(1) have "tl (promise ?l) \<noteq> []" by simp
      then show ?thesis using True reg sh(1) by (simp add: sh(5))
    next
      case False
      then show ?thesis using reg by (simp add: sh(5))
    qed
  qed
  show "active (lane_objects q' ! r') = (if head_running (lane_objects q' ! r') then 1 else 0) \<and>
          depth (lane_objects q' ! r') + active (lane_objects q' ! r')
            = length (promise (lane_objects q' ! r')) \<and>
          (promise (lane_objects q' ! r') \<noteq> [] \<longrightarrow>
             (lane_key (lane_objects q' ! r'), r') \<in> set (lanes q'))"
    if lt: "r' < length (lane_objects q')" for r'
  proof (cases "r' = r")
    case True
    have "(lane_key ?l, r) \<in> set (lanes q')" if "tl (promise ?l) \<noteq> []"
      using that tl(1) kept' [OF mem] by simp
    then show ?thesis using True sh(1) cnt tl(2) by (simp add: sh(5))
  next
    case False
    from lt have lt': "r' < length (lane_objects q)" by (simp add: sh(5))
    note ob = wf_object [OF wf lt']
    have "(lane_key (lane_objects q ! r'), r') \<in> set (lanes q')"
      if ne: "promise (lane_objects q ! r') \<noteq> []"
    proof -
      from ob ne have m: "(lane_key (lane_objects q ! r'), r') \<in> set (lanes q)" by simp
      have "lane_key (lane_objects q ! r') \<noteq> lane_key ?l"
        using uniq [of r'] m False by auto
      with m show ?thesis by (rule kept)
    qed
    then show ?thesis using False ob by (simp add: sh(5))
  qed
qed


lemma map_of_filter_key:
  "map_of (filter (\<lambda>(k, x). k \<noteq> K) xs) k = (if k = K then None else map_of xs k)"
  by (induction xs) auto

lemma wf_lookup:
  assumes "lane_wf q" and "map_of (lanes q) k = Some r"
  shows "r < length (lane_objects q)" and "lane_key (lane_objects q ! r) = k"
    and "promise (lane_objects q ! r) \<noteq> []"
  using wf_registered [OF assms(1) map_of_SomeD [OF assms(2)]] by simp_all

lemma wf_object_lookup:
  assumes "lane_wf q" and "r < length (lane_objects q)" and "promise (lane_objects q ! r) \<noteq> []"
  shows "map_of (lanes q) (lane_key (lane_objects q ! r)) = Some r"
  using wf_object [OF assms(1) assms(2)] assms(3) wf_distinct [OF assms(1)] by simp

lemma enqueue_hist:
  assumes wf: "lane_wf q" and h: "lane_hist q"
  shows "lane_hist (snd (enqueue q k fn now))"
proof (cases "fn = None \<or> maxDepth q \<le> totalDepth q")
  case True
  then show ?thesis using h by (simp add: enqueue_refused)
next
  case False
  then obtain j where fn: "fn = Some j" and lt: "totalDepth q < maxDepth q" by auto
  define K where "K = (if k = [] then ''default'' else k)"
  let ?q' = "snd (enqueue q k (Some j) now)"
  from h have hk: "jobs_of x (submitted q) = jobs_of x (begun q) @ waiting q x"
    "jobs_of x (begun q) = map fst (jobs_of x (settled q)) @ in_flight q x" for x
    by (simp_all add: lane_hist_def)
  show ?thesis
  proof (cases "map_of (lanes q) K")
    case None
    note sh = enqueue_new [OF K_def lt None, of j now]
    have w: "waiting ?q' x = waiting q x @ (if K = x then [j] else [])"
      and f: "in_flight ?q' x = in_flight q x" for x
    proof -
      show "waiting ?q' x = waiting q x @ (if K = x then [j] else [])"
      proof (cases "x = K")
        case True
        then show ?thesis using None by (simp add: waiting_def sh(1) sh(2) map_add_def)
      next
        case False
        then show ?thesis using wf_lookup(1) [OF wf, of x]
          by (auto simp add: waiting_def sh(1) sh(2) nth_append map_add_def split: option.splits)
      qed
      show "in_flight ?q' x = in_flight q x"
      proof (cases "x = K")
        case True
        then show ?thesis using None by (simp add: in_flight_def sh(1) sh(2) map_add_def)
      next
        case False
        then show ?thesis using wf_lookup(1) [OF wf, of x]
          by (auto simp add: in_flight_def sh(1) sh(2) nth_append map_add_def split: option.splits)
      qed
    qed
    show ?thesis
      unfolding fn lane_hist_def
      by (simp add: w f sh(3) sh(4) sh(5) hk [symmetric])
  next
    case (Some r)
    note sh = enqueue_old [OF K_def lt Some, of j now]
    note lk = wf_lookup [OF wf Some]
    have other: "r' \<noteq> r" if "map_of (lanes q) x = Some r'" "x \<noteq> K" for x r'
      using wf_lookup(2) [OF wf that(1)] lk(2) that(2) by auto
    have w: "waiting ?q' x = waiting q x @ (if K = x then [j] else [])"
      and f: "in_flight ?q' x = in_flight q x" for x
    proof -
      show "waiting ?q' x = waiting q x @ (if K = x then [j] else [])"
      proof (cases "x = K")
        case True
        then show ?thesis using Some lk by (simp add: waiting_def sh(1) sh(2))
      next
        case False
        then show ?thesis using other [of x]
          by (auto simp add: waiting_def sh(1) sh(2) split: option.splits)
      qed
      show "in_flight ?q' x = in_flight q x"
      proof (cases "x = K")
        case True
        then show ?thesis using Some lk by (simp add: in_flight_def sh(1) sh(2))
      next
        case False
        then show ?thesis using other [of x]
          by (auto simp add: in_flight_def sh(1) sh(2) split: option.splits)
      qed
    qed
    show ?thesis
      unfolding fn lane_hist_def
      by (simp add: w f sh(3) sh(4) sh(5) hk [symmetric])
  qed
qed


lemma run_start_hist:
  assumes wf: "lane_wf q" and h: "lane_hist q" and st: "run_start q r now = Some q'"
  shows "lane_hist q'"
proof -
  note sh = run_start_shape [OF st]
  let ?l = "lane_objects q ! r"
  define K where "K = lane_key ?l"
  from h have hk: "jobs_of x (submitted q) = jobs_of x (begun q) @ waiting q x"
    "jobs_of x (begun q) = map fst (jobs_of x (settled q)) @ in_flight q x" for x
    by (simp_all add: lane_hist_def)
  have reg: "map_of (lanes q) K = Some r"
    unfolding K_def using wf sh(1) sh(2) by (rule wf_object_lookup)
  have other: "r' \<noteq> r" if "map_of (lanes q) x = Some r'" "x \<noteq> K" for x r'
    using that reg wf_lookup(2) [OF wf that(1)] by (auto simp add: K_def)
  have w: "waiting q x = (if K = x then [hd (promise ?l)] else []) @ waiting q' x"
    and f: "in_flight q' x = in_flight q x @ (if K = x then [hd (promise ?l)] else [])" for x
  proof -
    show "waiting q x = (if K = x then [hd (promise ?l)] else []) @ waiting q' x"
    proof (cases "x = K")
      case True
      then show ?thesis using reg sh(1) sh(2) sh(3)
        by (simp add: waiting_def sh(4) sh(5))
    next
      case False
      then show ?thesis using other [of x]
        by (auto simp add: waiting_def sh(4) sh(5) split: option.splits)
    qed
    show "in_flight q' x = in_flight q x @ (if K = x then [hd (promise ?l)] else [])"
    proof (cases "x = K")
      case True
      then show ?thesis using reg sh(1) sh(2) sh(3)
        by (simp add: in_flight_def sh(4) sh(5))
    next
      case False
      then show ?thesis using other [of x]
        by (auto simp add: in_flight_def sh(4) sh(5) split: option.splits)
    qed
  qed
  show ?thesis
    unfolding lane_hist_def
    by (simp add: f sh(6) sh(7) sh(8) hk(1) K_def [symmetric] w [symmetric])
      (simp add: hk(2) w)
qed

lemma run_finally_hist:
  assumes wf: "lane_wf q" and h: "lane_hist q" and st: "run_finally q r res now = Some q'"
  shows "lane_hist q'"
proof -
  note sh = run_finally_shape [OF st]
  let ?l = "lane_objects q ! r"
  define K where "K = lane_key ?l"
  from h have hk: "jobs_of x (submitted q) = jobs_of x (begun q) @ waiting q x"
    "jobs_of x (begun q) = map fst (jobs_of x (settled q)) @ in_flight q x" for x
    by (simp_all add: lane_hist_def)
  have reg: "map_of (lanes q) K = Some r"
    unfolding K_def using wf sh(1) sh(2) by (rule wf_object_lookup)
  have other: "r' \<noteq> r" if "map_of (lanes q) x = Some r'" "x \<noteq> K" for x r'
    using that reg wf_lookup(2) [OF wf that(1)] by (auto simp add: K_def)
  from wf_object [OF wf sh(1)] sh(3) have cnt: "active ?l = 1"
    "depth ?l + 1 = length (promise ?l)"
    by simp_all
  have tl: "(tl (promise ?l) = []) = (depth ?l = 0)"
    using cnt(2) by (cases "promise ?l"; simp)
  have lk: "map_of (lanes q') x =
      (if x = K \<and> depth ?l = 0 then None else map_of (lanes q) x)" for x
    using cnt(1) by (simp add: sh(4) map_of_filter_key K_def)
  have w: "waiting q' x = waiting q x"
    and f: "in_flight q x = (if K = x then [hd (promise ?l)] else []) @ in_flight q' x" for x
  proof -
    show "waiting q' x = waiting q x"
    proof (cases "x = K")
      case True
      then show ?thesis using reg sh(1) sh(2) sh(3) tl
        by (auto simp add: waiting_def lk sh(5))
    next
      case False
      then show ?thesis using other [of x]
        by (auto simp add: waiting_def lk sh(5) split: option.splits)
    qed
    show "in_flight q x = (if K = x then [hd (promise ?l)] else []) @ in_flight q' x"
    proof (cases "x = K")
      case True
      then show ?thesis using reg sh(1) sh(2) sh(3)
        by (simp add: in_flight_def lk sh(5))
    next
      case False
      then show ?thesis using other [of x]
        by (auto simp add: in_flight_def lk sh(5) split: option.splits)
    qed
  qed
  show ?thesis
    unfolding lane_hist_def
    by (simp add: w sh(6) sh(7) sh(8) hk(1) [symmetric] K_def [symmetric])
      (simp add: hk(2) f)
qed


lemma lane_run_inv:
  "lane_wf q \<Longrightarrow> lane_hist q \<Longrightarrow> lane_run q steps = Some q' \<Longrightarrow> lane_wf q' \<and> lane_hist q'"
proof (induction steps arbitrary: q)
  case Nil
  then show ?case by simp
next
  case (Cons st steps)
  from Cons.prems(3) obtain q1 where n: "lane_next q st = Some q1" and r: "lane_run q1 steps = Some q'"
    by (auto split: option.splits)
  have "lane_wf q1 \<and> lane_hist q1"
  proof (cases st)
    case (Enqueue k fn now)
    with n Cons.prems(1,2) show ?thesis using enqueue_wf enqueue_hist by auto
  next
    case (RunStart r now)
    with n Cons.prems(1,2) show ?thesis using run_start_wf run_start_hist by auto
  next
    case (RunFinally r res now)
    with n Cons.prems(1,2) show ?thesis using run_finally_wf run_finally_hist by auto
  qed
  with Cons.IH r show ?case by blast
qed

lemma reachable_inv:
  "lane_run (new_LaneQueue m ev) steps = Some q \<Longrightarrow> lane_wf q \<and> lane_hist q"
  using lane_run_inv [OF new_lane_wf new_lane_hist] by blast

lemma hist_order:
  assumes "lane_hist q"
  shows "jobs_of k (begun q) = take (length (jobs_of k (begun q))) (jobs_of k (submitted q))"
    and "map fst (jobs_of k (settled q))
           = take (length (jobs_of k (settled q))) (jobs_of k (begun q))"
    and "length (jobs_of k (begun q)) \<le> length (jobs_of k (settled q)) + 1"
proof -
  from assms have hk: "jobs_of k (submitted q) = jobs_of k (begun q) @ waiting q k"
    "jobs_of k (begun q) = map fst (jobs_of k (settled q)) @ in_flight q k"
    by (simp_all add: lane_hist_def)
  show "jobs_of k (begun q) = take (length (jobs_of k (begun q))) (jobs_of k (submitted q))"
    by (simp add: hk(1))
  have "take (length (jobs_of k (settled q))) (jobs_of k (begun q))
      = take (length (map fst (jobs_of k (settled q))))
          (map fst (jobs_of k (settled q)) @ in_flight q k)"
    using hk(2) by simp
  then show "map fst (jobs_of k (settled q))
           = take (length (jobs_of k (settled q))) (jobs_of k (begun q))"
    by simp
  have "length (in_flight q k) \<le> 1" by (simp add: in_flight_def split: option.splits)
  moreover have "length (jobs_of k (begun q))
      = length (jobs_of k (settled q)) + length (in_flight q k)"
    using arg_cong [OF hk(2), of length] by simp
  ultimately show "length (jobs_of k (begun q)) \<le> length (jobs_of k (settled q)) + 1"
    by simp
qed

lemma start_next_in_line:
  assumes wf: "lane_wf q" and h: "lane_hist q" and st: "run_start q r now = Some q'"
  shows "map fst (jobs_of (lane_key (lane_objects q ! r)) (settled q))
           = jobs_of (lane_key (lane_objects q ! r)) (begun q)"
    and "length (jobs_of (lane_key (lane_objects q ! r)) (begun q))
           < length (jobs_of (lane_key (lane_objects q ! r)) (submitted q))"
    and "begun q' = begun q @ [(lane_key (lane_objects q ! r),
           jobs_of (lane_key (lane_objects q ! r)) (submitted q)
             ! length (jobs_of (lane_key (lane_objects q ! r)) (begun q)))]"
proof -
  note sh = run_start_shape [OF st]
  let ?l = "lane_objects q ! r"
  define K where "K = lane_key ?l"
  from h have hk: "jobs_of K (submitted q) = jobs_of K (begun q) @ waiting q K"
    "jobs_of K (begun q) = map fst (jobs_of K (settled q)) @ in_flight q K"
    by (simp_all add: lane_hist_def)
  have reg: "map_of (lanes q) K = Some r"
    unfolding K_def using wf sh(1) sh(2) by (rule wf_object_lookup)
  have w: "waiting q K = promise ?l" and f: "in_flight q K = []"
    using reg sh(3) by (simp_all add: waiting_def in_flight_def)
  show "map fst (jobs_of (lane_key ?l) (settled q)) = jobs_of (lane_key ?l) (begun q)"
    using hk(2) f by (simp add: K_def)
  show "length (jobs_of (lane_key ?l) (begun q)) < length (jobs_of (lane_key ?l) (submitted q))"
    using hk(1) w sh(2) by (simp add: K_def)
  have "jobs_of K (submitted q) ! length (jobs_of K (begun q)) = hd (promise ?l)"
    using sh(2) by (cases "promise ?l") (simp_all add: hk(1) w nth_append)
  then show "begun q' = begun q @ [(lane_key ?l,
           jobs_of (lane_key ?l) (submitted q) ! length (jobs_of (lane_key ?l) (begun q)))]"
    by (simp add: sh(7) K_def)
qed

lemma finally_hands_over:
  assumes wf: "lane_wf q" and h: "lane_hist q" and st: "run_finally q r res now = Some q'"
  shows "settled q' = settled q @ [(lane_key (lane_objects q ! r),
            last (jobs_of (lane_key (lane_objects q ! r)) (begun q)), res)]"
    and "length (jobs_of (lane_key (lane_objects q ! r)) (begun q))
           < length (jobs_of (lane_key (lane_objects q ! r)) (submitted q))
         \<Longrightarrow> run_start q' r now' \<noteq> None"
    and "(map_of (lanes q') (lane_key (lane_objects q ! r)) = None)
           = (depth (lane_objects q' ! r) = 0 \<and> active (lane_objects q' ! r) = 0)"
proof -
  note sh = run_finally_shape [OF st]
  let ?l = "lane_objects q ! r"
  define K where "K = lane_key ?l"
  from h have hk: "jobs_of K (submitted q) = jobs_of K (begun q) @ waiting q K"
    "jobs_of K (begun q) = map fst (jobs_of K (settled q)) @ in_flight q K"
    by (simp_all add: lane_hist_def)
  have reg: "map_of (lanes q) K = Some r"
    unfolding K_def using wf sh(1) sh(2) by (rule wf_object_lookup)
  from wf_object [OF wf sh(1)] sh(3) have cnt: "active ?l = 1"
    "depth ?l + 1 = length (promise ?l)"
    by simp_all
  have w: "waiting q K = tl (promise ?l)" and f: "in_flight q K = [hd (promise ?l)]"
    using reg sh(3) by (simp_all add: waiting_def in_flight_def)
  have "last (jobs_of K (begun q)) = hd (promise ?l)" by (simp add: hk(2) f)
  then show "settled q' = settled q @ [(lane_key ?l, last (jobs_of (lane_key ?l) (begun q)), res)]"
    by (simp add: sh(8) K_def)
  show "run_start q' r now' \<noteq> None"
    if "length (jobs_of (lane_key ?l) (begun q)) < length (jobs_of (lane_key ?l) (submitted q))"
  proof -
    from that have "tl (promise ?l) \<noteq> []" using hk(1) w by (cases "promise ?l") (auto simp add: K_def)
    then show ?thesis using sh(1)
      by (simp add: run_start_def sh(5) Let_def split: list.splits)
  qed
  show "(map_of (lanes q') (lane_key ?l) = None)
           = (depth (lane_objects q' ! r) = 0 \<and> active (lane_objects q' ! r) = 0)"
    using sh(1) cnt reg by (simp add: sh(4) sh(5) map_of_filter_key K_def)
qed

lemma registered_is_busy:
  assumes wf: "lane_wf q" and reg: "map_of (lanes q) k = Some r"
  shows "0 < depth (lane_objects q ! r) + active (lane_objects q ! r)"
  using wf_lookup [OF wf reg] wf_object [OF wf, of r]
  by (cases "promise (lane_objects q ! r)") auto

lemma counters_count:
  assumes wf: "lane_wf q" and h: "lane_hist q" and reg: "map_of (lanes q) k = Some r"
  shows "lane_key (lane_objects q ! r) = k"
    and "depth (lane_objects q ! r) + length (jobs_of k (begun q))
           = length (jobs_of k (submitted q))"
    and "active (lane_objects q ! r) + length (jobs_of k (settled q))
           = length (jobs_of k (begun q))"
proof -
  note lk = wf_lookup [OF wf reg]
  note ob = wf_object [OF wf lk(1)]
  from h have hk: "jobs_of k (submitted q) = jobs_of k (begun q) @ waiting q k"
    "jobs_of k (begun q) = map fst (jobs_of k (settled q)) @ in_flight q k"
    by (simp_all add: lane_hist_def)
  have w: "length (waiting q k) = depth (lane_objects q ! r)"
    using reg ob lk(3) by (cases "promise (lane_objects q ! r)") (auto simp add: waiting_def)
  have f: "length (in_flight q k) = active (lane_objects q ! r)"
    using reg ob by (simp add: in_flight_def)
  show "lane_key (lane_objects q ! r) = k" by (rule lk(2))
  show "depth (lane_objects q ! r) + length (jobs_of k (begun q))
           = length (jobs_of k (submitted q))"
    using arg_cong [OF hk(1), of length] w by simp
  show "active (lane_objects q ! r) + length (jobs_of k (settled q))
           = length (jobs_of k (begun q))"
    using arg_cong [OF hk(2), of length] f by simp
qed

lemma off_map_iff_settled:
  assumes wf: "lane_wf q" and h: "lane_hist q"
  shows "(map_of (lanes q) k = None)
           = (jobs_of k (submitted q) = map fst (jobs_of k (settled q)))"
proof (cases "map_of (lanes q) k")
  case None
  from h have hk: "jobs_of k (submitted q) = jobs_of k (begun q) @ waiting q k"
    "jobs_of k (begun q) = map fst (jobs_of k (settled q)) @ in_flight q k"
    by (simp_all add: lane_hist_def)
  have "jobs_of k (submitted q) = map fst (jobs_of k (settled q))"
    using hk None by (simp add: waiting_def in_flight_def)
  with None show ?thesis by simp
next
  case (Some r)
  note c = counters_count [OF wf h Some]
  from registered_is_busy [OF wf Some]
  have "length (jobs_of k (settled q)) < length (jobs_of k (submitted q))"
    using c(2) c(3) by linarith
  then have "jobs_of k (submitted q) \<noteq> map fst (jobs_of k (settled q))"
    by (metis length_map less_irrefl)
  with Some show ?thesis by simp
qed

lemma start_counters:
  assumes wf: "lane_wf q" and st: "run_start q r now = Some q'"
  shows "map_of (lanes q) (lane_key (lane_objects q ! r)) = Some r"
    and "active (lane_objects q ! r) = 0"
    and "active (lane_objects q' ! r) = 1"
proof -
  note sh = run_start_shape [OF st]
  show "map_of (lanes q) (lane_key (lane_objects q ! r)) = Some r"
    using wf sh(1) sh(2) by (rule wf_object_lookup)
  show "active (lane_objects q ! r) = 0"
    using wf_object [OF wf sh(1)] sh(3) by simp
  then show "active (lane_objects q' ! r) = 1"
    using sh(1) by (simp add: sh(5))
qed

lemma finally_counters:
  assumes wf: "lane_wf q" and h: "lane_hist q" and st: "run_finally q r res now = Some q'"
  shows "map_of (lanes q) (lane_key (lane_objects q ! r)) = Some r"
    and "active (lane_objects q ! r) = 1"
    and "active (lane_objects q' ! r) = 0"
    and "(map_of (lanes q') (lane_key (lane_objects q ! r)) = None)
           = (jobs_of (lane_key (lane_objects q ! r)) (submitted q')
                = map fst (jobs_of (lane_key (lane_objects q ! r)) (settled q')))"
proof -
  note sh = run_finally_shape [OF st]
  show "map_of (lanes q) (lane_key (lane_objects q ! r)) = Some r"
    using wf sh(1) sh(2) by (rule wf_object_lookup)
  show "active (lane_objects q ! r) = 1"
    using wf_object [OF wf sh(1)] sh(3) by simp
  then show "active (lane_objects q' ! r) = 0"
    using sh(1) by (simp add: sh(5))
  show "(map_of (lanes q') (lane_key (lane_objects q ! r)) = None)
           = (jobs_of (lane_key (lane_objects q ! r)) (submitted q')
                = map fst (jobs_of (lane_key (lane_objects q ! r)) (settled q')))"
    using run_finally_wf [OF wf st] run_finally_hist [OF wf h st] by (rule off_map_iff_settled)
qed

lemma never_stuck:
  assumes wf: "lane_wf q" and reg: "map_of (lanes q) k = Some r"
  shows "active (lane_objects q ! r) = 0 \<Longrightarrow> run_start q r now \<noteq> None"
    and "active (lane_objects q ! r) = 1 \<Longrightarrow> run_finally q r result now \<noteq> None"
proof -
  note lk = wf_lookup [OF wf reg]
  note ob = wf_object [OF wf lk(1)]
  show "run_start q r now \<noteq> None" if "active (lane_objects q ! r) = 0"
    using that ob lk(1) lk(3)
    by (cases "head_running (lane_objects q ! r)")
      (simp_all add: run_start_def Let_def split: list.splits)
  show "run_finally q r result now \<noteq> None" if "active (lane_objects q ! r) = 1"
    using that ob lk(1) lk(3)
    by (cases "head_running (lane_objects q ! r)")
      (simp_all add: run_finally_def Let_def split: list.splits)
qed

text \<open>
  C3. In every queue that a run of steps reaches from a new queue, and for every lane key:
  the jobs of the lane that have begun are the first of those submitted, in the order of
  submission; those that have finished are the first of those begun, and at most one has
  begun without having finished, so no two executions of a lane overlap. A job begins only
  on the lane object that is on the map under its key, when the \<open>active\<close> count of that
  object is zero and all jobs of the lane that began before have finished, and it is the
  next one in the order of submission; the count is one while it runs. When the \<open>fn\<close> of
  the running job returns or throws, that outcome goes to the caller of this job, the
  \<open>active\<close> count is zero again, a later job of the lane that is waiting can begin, and
  the lane is off the map exactly if its pending depth and its active count are both zero,
  which is exactly if every job submitted for the lane has finished. A lane is off the map
  exactly if every job submitted for it has finished; for a lane on the map the pending
  depth is the number of its jobs submitted and not begun, the active count is the
  number of its jobs begun and not finished, and the lane is never stuck: with the active
  count at zero its next job can begin, and with the count at one the running job can
  return or throw.
\<close>

theorem lane_runs_in_order:
  assumes "lane_run (new_LaneQueue m ev) steps = Some q"
  shows "jobs_of k (begun q) = take (length (jobs_of k (begun q))) (jobs_of k (submitted q)) \<and>
         map fst (jobs_of k (settled q))
           = take (length (jobs_of k (settled q))) (jobs_of k (begun q)) \<and>
         length (jobs_of k (begun q)) \<le> length (jobs_of k (settled q)) + 1 \<and>
         (run_start q r now = Some q' \<longrightarrow>
            map fst (jobs_of (lane_key (lane_objects q ! r)) (settled q))
              = jobs_of (lane_key (lane_objects q ! r)) (begun q) \<and>
            begun q' = begun q @ [(lane_key (lane_objects q ! r),
              jobs_of (lane_key (lane_objects q ! r)) (submitted q)
                ! length (jobs_of (lane_key (lane_objects q ! r)) (begun q)))] \<and>
            map_of (lanes q) (lane_key (lane_objects q ! r)) = Some r \<and>
            active (lane_objects q ! r) = 0 \<and>
            active (lane_objects q' ! r) = 1) \<and>
         (run_finally q r result now = Some q' \<longrightarrow>
            settled q' = settled q @ [(lane_key (lane_objects q ! r),
              last (jobs_of (lane_key (lane_objects q ! r)) (begun q)), result)] \<and>
            (length (jobs_of (lane_key (lane_objects q ! r)) (begun q))
               < length (jobs_of (lane_key (lane_objects q ! r)) (submitted q)) \<longrightarrow>
             run_start q' r later \<noteq> None) \<and>
            ((map_of (lanes q') (lane_key (lane_objects q ! r)) = None)
               = (depth (lane_objects q' ! r) = 0 \<and> active (lane_objects q' ! r) = 0)) \<and>
            map_of (lanes q) (lane_key (lane_objects q ! r)) = Some r \<and>
            active (lane_objects q ! r) = 1 \<and>
            active (lane_objects q' ! r) = 0 \<and>
            ((map_of (lanes q') (lane_key (lane_objects q ! r)) = None)
               = (jobs_of (lane_key (lane_objects q ! r)) (submitted q')
                    = map fst (jobs_of (lane_key (lane_objects q ! r)) (settled q'))))) \<and>
         (map_of (lanes q) k = Some r \<longrightarrow>
            0 < depth (lane_objects q ! r) + active (lane_objects q ! r)) \<and>
         ((map_of (lanes q) k = None)
            = (jobs_of k (submitted q) = map fst (jobs_of k (settled q)))) \<and>
         (map_of (lanes q) k = Some r \<longrightarrow>
            lane_key (lane_objects q ! r) = k \<and>
            depth (lane_objects q ! r) + length (jobs_of k (begun q))
              = length (jobs_of k (submitted q)) \<and>
            active (lane_objects q ! r) + length (jobs_of k (settled q))
              = length (jobs_of k (begun q)) \<and>
            (active (lane_objects q ! r) = 0 \<longrightarrow> run_start q r now \<noteq> None) \<and>
            (active (lane_objects q ! r) = 1 \<longrightarrow> run_finally q r result now \<noteq> None))"
proof -
  from reachable_inv [OF assms] have wf: "lane_wf q" and h: "lane_hist q" by simp_all
  note o = hist_order [OF h, of k]
  have s: "run_start q r now = Some q' \<longrightarrow>
            map fst (jobs_of (lane_key (lane_objects q ! r)) (settled q))
              = jobs_of (lane_key (lane_objects q ! r)) (begun q) \<and>
            begun q' = begun q @ [(lane_key (lane_objects q ! r),
              jobs_of (lane_key (lane_objects q ! r)) (submitted q)
                ! length (jobs_of (lane_key (lane_objects q ! r)) (begun q)))] \<and>
            map_of (lanes q) (lane_key (lane_objects q ! r)) = Some r \<and>
            active (lane_objects q ! r) = 0 \<and>
            active (lane_objects q' ! r) = 1"
    using start_next_in_line(1,3) [OF wf h, of r now q'] start_counters [OF wf, of r now q']
    by blast
  have f: "run_finally q r result now = Some q' \<longrightarrow>
            settled q' = settled q @ [(lane_key (lane_objects q ! r),
              last (jobs_of (lane_key (lane_objects q ! r)) (begun q)), result)] \<and>
            (length (jobs_of (lane_key (lane_objects q ! r)) (begun q))
               < length (jobs_of (lane_key (lane_objects q ! r)) (submitted q)) \<longrightarrow>
             run_start q' r later \<noteq> None) \<and>
            ((map_of (lanes q') (lane_key (lane_objects q ! r)) = None)
               = (depth (lane_objects q' ! r) = 0 \<and> active (lane_objects q' ! r) = 0)) \<and>
            map_of (lanes q) (lane_key (lane_objects q ! r)) = Some r \<and>
            active (lane_objects q ! r) = 1 \<and>
            active (lane_objects q' ! r) = 0 \<and>
            ((map_of (lanes q') (lane_key (lane_objects q ! r)) = None)
               = (jobs_of (lane_key (lane_objects q ! r)) (submitted q')
                    = map fst (jobs_of (lane_key (lane_objects q ! r)) (settled q'))))"
    using finally_hands_over(1,3) [OF wf h, of r result now q']
      finally_hands_over(2) [OF wf h, of r result now q' later]
      finally_counters [OF wf h, of r result now q']
    by blast
  have b: "map_of (lanes q) k = Some r \<longrightarrow>
            0 < depth (lane_objects q ! r) + active (lane_objects q ! r)"
    using registered_is_busy [OF wf, of k r] by blast
  note m = off_map_iff_settled [OF wf h, of k]
  have c: "map_of (lanes q) k = Some r \<longrightarrow>
            lane_key (lane_objects q ! r) = k \<and>
            depth (lane_objects q ! r) + length (jobs_of k (begun q))
              = length (jobs_of k (submitted q)) \<and>
            active (lane_objects q ! r) + length (jobs_of k (settled q))
              = length (jobs_of k (begun q)) \<and>
            (active (lane_objects q ! r) = 0 \<longrightarrow> run_start q r now \<noteq> None) \<and>
            (active (lane_objects q ! r) = 1 \<longrightarrow> run_finally q r result now \<noteq> None)"
    using counters_count [OF wf h, of k r] never_stuck(1) [OF wf, of k r now]
      never_stuck(2) [OF wf, of k r result now] by blast
  show ?thesis by (intro conjI) (fact o s f b m c)+
qed

theorem lane_runs_in_order_witness:
  "lane_run (new_LaneQueue (Some 5) True) two_waiting = Some (after_steps two_waiting) \<and>
   run_start (after_steps two_waiting) 0 3 = Some (after_steps first_begun) \<and>
   begun (after_steps two_waiting) = [] \<and>
   begun (after_steps first_begun) = [(''a'', 1)] \<and>
   lane_run (new_LaneQueue (Some 5) True) first_begun = Some (after_steps first_begun) \<and>
   run_finally (after_steps first_begun) 0 (Rejected ''boom'') 4
     = Some (the (run_finally (after_steps first_begun) 0 (Rejected ''boom'') 4)) \<and>
   settled (the (run_finally (after_steps first_begun) 0 (Rejected ''boom'') 4))
     = [(''a'', 1, Rejected ''boom'')] \<and>
   length (jobs_of ''a'' (begun (after_steps first_begun)))
     < length (jobs_of ''a'' (submitted (after_steps first_begun))) \<and>
   run_start (the (run_finally (after_steps first_begun) 0 (Rejected ''boom'') 4)) 0 5 \<noteq> None \<and>
   map_of (lanes (after_steps first_begun)) ''a'' = Some 0 \<and>
   0 < depth (lane_objects (after_steps first_begun) ! 0)
         + active (lane_objects (after_steps first_begun) ! 0) \<and>
   depth (lane_objects (after_steps first_begun) ! 0) = 1 \<and>
   active (lane_objects (after_steps first_begun) ! 0) = 1 \<and>
   lane_run (new_LaneQueue (Some 5) True) second_begun = Some (after_steps second_begun) \<and>
   run_finally (after_steps second_begun) 0 (Fulfilled ''ok'') 6
     = Some (the (run_finally (after_steps second_begun) 0 (Fulfilled ''ok'') 6)) \<and>
   settled (the (run_finally (after_steps second_begun) 0 (Fulfilled ''ok'') 6))
     = [(''a'', 1, Rejected ''boom''), (''a'', 2, Fulfilled ''ok'')] \<and>
   jobs_of ''a'' (submitted (the (run_finally (after_steps second_begun) 0 (Fulfilled ''ok'') 6)))
     = map fst (jobs_of ''a''
         (settled (the (run_finally (after_steps second_begun) 0 (Fulfilled ''ok'') 6)))) \<and>
   map_of (lanes (the (run_finally (after_steps second_begun) 0 (Fulfilled ''ok'') 6))) ''a'' = None \<and>
   depth (lane_objects (the (run_finally (after_steps second_begun) 0 (Fulfilled ''ok'') 6)) ! 0) = 0 \<and>
   active (lane_objects (the (run_finally (after_steps second_begun) 0 (Fulfilled ''ok'') 6)) ! 0) = 0 \<and>
   lanes (the (run_finally (after_steps second_begun) 0 (Fulfilled ''ok'') 6)) = [] \<and>
   map_of (lanes (after_steps two_waiting)) ''a'' = Some 0 \<and>
   active (lane_objects (after_steps two_waiting) ! 0) = 0 \<and>
   run_start (after_steps two_waiting) 0 3 \<noteq> None \<and>
   run_finally (after_steps first_begun) 0 (Rejected ''boom'') 4 \<noteq> None"
proof -
  let ?qA = "after_steps two_waiting"
  let ?qB = "after_steps first_begun"
  let ?qC = "the (run_finally ?qB 0 (Rejected ''boom'') 4)"
  let ?qD = "after_steps second_begun"
  let ?qE = "the (run_finally ?qD 0 (Fulfilled ''ok'') 6)"
  have a: "lane_run (new_LaneQueue (Some 5) True) two_waiting = Some ?qA" by code_simp
  have b: "lane_run (new_LaneQueue (Some 5) True) first_begun = Some ?qB" by code_simp
  have c: "run_start ?qA 0 3 = Some ?qB" by code_simp
  have e: "run_finally ?qB 0 (Rejected ''boom'') 4 = Some ?qC" by code_simp
  have h: "map_of (lanes ?qB) ''a'' = Some 0" by code_simp
  have l: "length (jobs_of ''a'' (begun ?qB)) < length (jobs_of ''a'' (submitted ?qB))"
    by code_simp
  have ev: "begun ?qA = []" "lane_key (lane_objects ?qA ! 0) = ''a''"
    "jobs_of ''a'' (submitted ?qA) = [1, 2]" "jobs_of ''a'' (begun ?qA) = []"
    "settled ?qB = []" "lane_key (lane_objects ?qB ! 0) = ''a''"
    "jobs_of ''a'' (begun ?qB) = [1]"
    by code_simp+
  have ev2: "jobs_of ''a'' (submitted ?qB) = [1, 2]" "jobs_of ''a'' (settled ?qB) = []"
    by code_simp+
  have n: "lane_run (new_LaneQueue (Some 5) True) second_begun = Some ?qD" by code_simp
  have p: "run_finally ?qD 0 (Fulfilled ''ok'') 6 = Some ?qE" by code_simp
  have ev3: "settled ?qD = [(''a'', 1, Rejected ''boom'')]" "lane_key (lane_objects ?qD ! 0) = ''a''"
    "jobs_of ''a'' (begun ?qD) = [1, 2]"
    by code_simp+
  have all: "jobs_of ''a'' (submitted ?qE) = map fst (jobs_of ''a'' (settled ?qE))" by code_simp
  have lanesE: "lanes ?qE = []" by code_simp
  note tA = lane_runs_in_order [OF a, of "''a''" 0 3 ?qB]
  note tB = lane_runs_in_order [OF b, of "''a''" 0 4 ?qC "Rejected ''boom''" 5]
  note tD = lane_runs_in_order [OF n, of "''a''" 0 6 ?qE "Fulfilled ''ok''" 7]
  note startA = tA [THEN conjunct2, THEN conjunct2, THEN conjunct2, THEN conjunct1, THEN mp, OF c]
  note finB = tB [THEN conjunct2, THEN conjunct2, THEN conjunct2, THEN conjunct2, THEN conjunct1,
      THEN mp, OF e]
  note finD = tD [THEN conjunct2, THEN conjunct2, THEN conjunct2, THEN conjunct2, THEN conjunct1,
      THEN mp, OF p]
  note regB = tB [THEN conjunct2, THEN conjunct2, THEN conjunct2, THEN conjunct2, THEN conjunct2]
  have d: "begun ?qB = [(''a'', 1)]"
    using startA by (simp add: ev)
  have f: "settled ?qC = [(''a'', 1, Rejected ''boom'')]"
    using finB by (simp add: ev)
  have g: "run_start ?qC 0 5 \<noteq> None"
    using finB l by (simp add: ev)
  have i: "0 < depth (lane_objects ?qB ! 0) + active (lane_objects ?qB ! 0)"
    by (rule regB [THEN conjunct1, THEN mp, OF h])
  have cnt: "depth (lane_objects ?qB ! 0) = 1" "active (lane_objects ?qB ! 0) = 1"
    using regB [THEN conjunct2, THEN conjunct2, THEN mp, OF h] by (simp_all add: ev ev2)
  have sE: "settled ?qE = [(''a'', 1, Rejected ''boom''), (''a'', 2, Fulfilled ''ok'')]"
    using finD by (simp add: ev3)
  have offE: "map_of (lanes ?qE) ''a'' = None"
    using finD all by (simp add: ev3)
  have zero: "depth (lane_objects ?qE ! 0) = 0" "active (lane_objects ?qE ! 0) = 0"
    using finD offE by (simp_all add: ev3)
  have hA: "map_of (lanes ?qA) ''a'' = Some 0" by code_simp
  have actA: "active (lane_objects ?qA ! 0) = 0" using startA by simp
  note regA = tA [THEN conjunct2, THEN conjunct2, THEN conjunct2, THEN conjunct2, THEN conjunct2,
      THEN conjunct2, THEN conjunct2, THEN mp, OF hA]
  have goA: "run_start ?qA 0 3 \<noteq> None"
    using regA actA by blast
  have goB: "run_finally ?qB 0 (Rejected ''boom'') 4 \<noteq> None"
    using regB [THEN conjunct2, THEN conjunct2, THEN mp, OF h] cnt(2) by blast
  show ?thesis
    by (intro conjI)
      (fact a c ev(1) d b e f l g h i cnt n p sE all offE zero lanesE hA actA goA goB)+
qed

end
